theory Spec2Isabelle
  imports Main "HOL-Library.Char_ord" "HOL-Library.List_Lexorder" "HOL-Library.Product_Lexorder"
begin

section \<open>Python strings\<close>

text \<open>
  A Python \<open>str\<close> is a sequence of code points. The model is \<^typ>\<open>string\<close>, read as the
  code points U+0000 to U+00FF: \<^term>\<open>length\<close> counts code points, as \<open>len\<close> does, and the
  character classes below are the ones of \<open>str.isspace\<close>, \<open>str.lower\<close>, \<open>str.splitlines\<close>
  and the \<open>re\<close> module (\<open>\s\<close>, \<open>\w\<close>, \<open>IGNORECASE\<close>) on that range. Strings are ordered
  by code point, lexicographically, as Python compares them.
\<close>

abbreviation NL :: char where "NL \<equiv> CHR 0x0A"
abbreviation CR :: char where "CR \<equiv> CHR 0x0D"
abbreviation DQUOTE :: char where "DQUOTE \<equiv> CHR 0x22"

definition code_point :: "char \<Rightarrow> nat" where
  "code_point c = of_char c"

definition py_isspace :: "char \<Rightarrow> bool" where
  "py_isspace c = (let n = code_point c in
     (9 \<le> n \<and> n \<le> 13) \<or> (28 \<le> n \<and> n \<le> 32) \<or> n = 133 \<or> n = 160)"

definition is_linebreak :: "char \<Rightarrow> bool" where
  "is_linebreak c = (let n = code_point c in
     (10 \<le> n \<and> n \<le> 13) \<or> (28 \<le> n \<and> n \<le> 30) \<or> n = 133)"

definition is_word_char :: "char \<Rightarrow> bool" where
  "is_word_char c = (let n = code_point c in
     (48 \<le> n \<and> n \<le> 57) \<or> (65 \<le> n \<and> n \<le> 90) \<or> n = 95 \<or> (97 \<le> n \<and> n \<le> 122)
     \<or> n = 170 \<or> n = 178 \<or> n = 179 \<or> n = 181 \<or> n = 185 \<or> n = 186
     \<or> (188 \<le> n \<and> n \<le> 190) \<or> (192 \<le> n \<and> n \<le> 214) \<or> (216 \<le> n \<and> n \<le> 246)
     \<or> 248 \<le> n)"

definition lower_char :: "char \<Rightarrow> char" where
  "lower_char c = (let n = code_point c in
     if (65 \<le> n \<and> n \<le> 90) \<or> (192 \<le> n \<and> n \<le> 214) \<or> (216 \<le> n \<and> n \<le> 222)
     then char_of (n + 32) else c)"

definition py_lower :: "string \<Rightarrow> string" where
  "py_lower s = map lower_char s"

definition py_lstrip :: "string \<Rightarrow> string" where
  "py_lstrip s = dropWhile py_isspace s"

definition py_rstrip :: "string \<Rightarrow> string" where
  "py_rstrip s = rev (dropWhile py_isspace (rev s))"

definition py_strip :: "string \<Rightarrow> string" where
  "py_strip s = py_lstrip (py_rstrip s)"

definition rstrip_chars :: "char set \<Rightarrow> string \<Rightarrow> string" where
  "rstrip_chars cs s = rev (dropWhile (\<lambda>c. c \<in> cs) (rev s))"

definition lstrip_chars :: "char set \<Rightarrow> string \<Rightarrow> string" where
  "lstrip_chars cs s = dropWhile (\<lambda>c. c \<in> cs) s"

definition py_startswith :: "string \<Rightarrow> string \<Rightarrow> bool" where
  "py_startswith s p = (take (length p) s = p)"

definition py_endswith :: "string \<Rightarrow> string \<Rightarrow> bool" where
  "py_endswith s p = (length p \<le> length s \<and> drop (length s - length p) s = p)"

fun py_join :: "string \<Rightarrow> string list \<Rightarrow> string" where
  "py_join sep [] = []"
| "py_join sep [x] = x"
| "py_join sep (x # y # ys) = x @ sep @ py_join sep (y # ys)"

fun py_contains :: "string \<Rightarrow> string \<Rightarrow> bool" where
  "py_contains [] needle = (needle = [])"
| "py_contains (c # cs) needle = (py_startswith (c # cs) needle \<or> py_contains cs needle)"

text \<open>
  \<open>str.splitlines(keepends)\<close>: a line ends at each line boundary, \<open>\r\n\<close> counts as one
  boundary, and there is no empty last line after a final boundary.
\<close>

fun splitlines_from :: "bool \<Rightarrow> string \<Rightarrow> string \<Rightarrow> string list" where
  "splitlines_from keepends cur [] = (if cur = [] then [] else [cur])"
| "splitlines_from keepends cur [c] =
     (if is_linebreak c then [cur @ (if keepends then [c] else [])]
      else [cur @ [c]])"
| "splitlines_from keepends cur (c # d # cs) =
     (if c = CR \<and> d = NL then (cur @ (if keepends then [c, d] else [])) # splitlines_from keepends [] cs
      else if is_linebreak c then (cur @ (if keepends then [c] else [])) # splitlines_from keepends [] (d # cs)
      else splitlines_from keepends (cur @ [c]) (d # cs))"

definition py_splitlines :: "bool \<Rightarrow> string \<Rightarrow> string list" where
  "py_splitlines keepends s = splitlines_from keepends [] s"

section \<open>searcher.py: the archived text format\<close>

definition DIVIDER :: string where
  "DIVIDER = replicate 40 (CHR ''-'')"

definition MAX_LINES_LISTED_PER_FILE :: nat where
  "MAX_LINES_LISTED_PER_FILE = 20"

record Attachment =
  filename :: string
  ext :: string
  proxy_url :: string

record Message =
  timestamp :: string
  date :: string
  name :: string
  content :: "string option"
  attachments :: "Attachment list"
  raw_block :: string
  source_file :: string
  start_line :: int

subsection \<open>parse_header\<close>

text \<open>
  The header pattern is \<^verbatim>\<open>^\[(?P<ts>[^\]]+)\]\s+(?P<name>.+?)\s*$\<close>, applied with
  \<open>re.match\<close>. The functions follow the matcher's search order: \<open>ts\<close> is the run of
  characters up to the first \<open>]\<close>; the greedy \<open>\s+\<close> first takes the whole run of white
  space and gives characters back one at a time; for each choice the lazy \<open>.+?\<close> grows
  from one character (never over a newline) until what is left is white space only.
\<close>

fun lazy_name :: "string \<Rightarrow> string \<Rightarrow> string option" where
  "lazy_name acc [] = Some acc"
| "lazy_name acc (c # cs) =
     (if list_all py_isspace (c # cs) then Some acc
      else if c = NL then None
      else lazy_name (acc @ [c]) cs)"

definition name_at :: "string \<Rightarrow> string option" where
  "name_at s = (case s of [] \<Rightarrow> None | c # cs \<Rightarrow> if c = NL then None else lazy_name [c] cs)"

fun greedy_space :: "nat \<Rightarrow> string \<Rightarrow> string option" where
  "greedy_space 0 rest = None"
| "greedy_space (Suc k) rest =
     (case name_at (drop (Suc k) rest) of
        Some n \<Rightarrow> Some n
      | None \<Rightarrow> greedy_space k rest)"

definition parse_header :: "string \<Rightarrow> (string \<times> string) option" where
  "parse_header line =
     (case line of
        [] \<Rightarrow> None
      | c # r \<Rightarrow>
          if c \<noteq> CHR ''['' then None
          else let ts = takeWhile (\<lambda>x. x \<noteq> CHR '']'') r;
                   after = dropWhile (\<lambda>x. x \<noteq> CHR '']'') r
               in if ts = [] then None
                  else (case after of
                          [] \<Rightarrow> None
                        | _ # rest \<Rightarrow>
                            (case greedy_space (length (takeWhile py_isspace rest)) rest of
                               None \<Rightarrow> None
                             | Some n \<Rightarrow> Some (ts, n))))"

subsection \<open>derive_date_from_timestamp\<close>

definition derive_date_from_timestamp :: "string \<Rightarrow> string" where
  "derive_date_from_timestamp ts =
     (if length ts \<ge> 10 \<and> ts ! 4 = CHR ''-'' \<and> ts ! 7 = CHR ''-'' then take 10 ts
      else ''NO_DATE'')"

subsection \<open>parse_block\<close>

definition attachment_ext :: "string \<Rightarrow> string" where
  "attachment_ext fname =
     (if CHR ''.'' \<in> set fname
      then py_lower (rev (takeWhile (\<lambda>c. c \<noteq> CHR ''.'') (rev fname)))
      else [])"

definition mk_attachment :: "string \<Rightarrow> string \<Rightarrow> Attachment" where
  "mk_attachment fname url = \<lparr>filename = fname, ext = attachment_ext fname, proxy_url = url\<rparr>"

text \<open>
  The \<open>while i < len(block_lines)\<close> loop, on the lines from index \<open>i\<close> on; an
  \<open>Attachment:\<close> line followed by a \<open>Proxy:\<close> line advances by two.
\<close>

fun scan_lines :: "string list \<Rightarrow> string list \<Rightarrow> Attachment list \<Rightarrow> string list \<times> Attachment list" where
  "scan_lines [] content_lines atts = (content_lines, atts)"
| "scan_lines [l] content_lines atts =
     (let line = rstrip_chars {NL} l in
      if py_startswith line ''Attachment:''
      then (content_lines, atts @ [mk_attachment (py_strip (drop 11 line)) []])
      else if py_startswith line ''Proxy:'' then (content_lines, atts)
      else if py_strip line \<noteq> [] then (content_lines @ [line], atts)
      else (content_lines, atts))"
| "scan_lines (l # n # rest) content_lines atts =
     (let line = rstrip_chars {NL} l in
      if py_startswith line ''Attachment:''
      then (let fname = py_strip (drop 11 line); nxt = rstrip_chars {NL} n in
            if py_startswith nxt ''Proxy:''
            then scan_lines rest content_lines (atts @ [mk_attachment fname (py_strip (drop 6 nxt))])
            else scan_lines (n # rest) content_lines (atts @ [mk_attachment fname []]))
      else if py_startswith line ''Proxy:'' then scan_lines (n # rest) content_lines atts
      else if py_strip line \<noteq> [] then scan_lines (n # rest) (content_lines @ [line]) atts
      else scan_lines (n # rest) content_lines atts)"

definition pop_blank_lines :: "string list \<Rightarrow> string list" where
  "pop_blank_lines block_lines = rev (dropWhile (\<lambda>l. py_strip l = []) (rev block_lines))"

definition parse_block :: "string list \<Rightarrow> string \<Rightarrow> int \<Rightarrow> Message option" where
  "parse_block block_lines0 src_file start =
     (let block_lines = pop_blank_lines block_lines0 in
      case block_lines of
        [] \<Rightarrow> None
      | first # body \<Rightarrow>
          (case parse_header first of
             None \<Rightarrow> None
           | Some (ts, nm) \<Rightarrow>
               if ts = [] \<or> nm = [] then None
               else let (content_lines, atts) = scan_lines body [] [];
                        c0 = (if content_lines \<noteq> [] then Some (py_strip (py_join [NL] content_lines)) else None);
                        c = (if c0 = Some [] then None else c0)
                    in Some \<lparr>timestamp = ts,
                             date = derive_date_from_timestamp ts,
                             name = nm,
                             content = c,
                             attachments = atts,
                             raw_block = py_rstrip (py_join [NL] block_lines) @ [NL] @ DIVIDER @ [NL],
                             source_file = src_file,
                             start_line = start\<rparr>))"

subsection \<open>parse_file_into_messages\<close>

record tok_state =
  messages :: "Message list"
  current_block :: "string list"
  current_start_line :: "int option"

definition flush_block :: "string \<Rightarrow> tok_state \<Rightarrow> tok_state" where
  "flush_block fname st =
     \<lparr>messages =
        (case current_start_line st of
           None \<Rightarrow> messages st
         | Some start \<Rightarrow>
             if current_block st = [] then messages st
             else (case parse_block (current_block st) fname start of
                     None \<Rightarrow> messages st
                   | Some msg \<Rightarrow> messages st @ [msg])),
      current_block = [],
      current_start_line = None\<rparr>"

text \<open>The \<open>for idx, line in enumerate(lines, start=1)\<close> loop, from line number \<open>idx\<close> on.\<close>

fun tokenize_lines :: "string \<Rightarrow> int \<Rightarrow> string list \<Rightarrow> tok_state \<Rightarrow> tok_state" where
  "tokenize_lines fname idx [] st = st"
| "tokenize_lines fname idx (line # ls) st =
     (if py_strip line = DIVIDER then tokenize_lines fname (idx + 1) ls (flush_block fname st)
      else tokenize_lines fname (idx + 1) ls
             (st\<lparr>current_start_line :=
                    (if current_start_line st = None \<and> py_strip line \<noteq> [] then Some idx
                     else current_start_line st),
                 current_block := current_block st @ [line]\<rparr>))"

definition parse_lines_into_messages :: "string \<Rightarrow> string list \<Rightarrow> Message list" where
  "parse_lines_into_messages fname lines =
     messages (flush_block fname
       (tokenize_lines fname 1 lines
          \<lparr>messages = [], current_block = [], current_start_line = None\<rparr>))"

text \<open>\<open>fname\<close> is the file's name and \<open>text\<close> the text read from it.\<close>

definition parse_file_into_messages :: "string \<Rightarrow> string \<Rightarrow> Message list" where
  "parse_file_into_messages fname text = parse_lines_into_messages fname (py_splitlines False text)"

text \<open>
  What the header pattern says, read off the pattern itself: \<open>line\<close> is \<open>[\<close>, a non-empty
  \<open>ts\<close> without \<open>]\<close>, \<open>]\<close>, white space (at least one character), a non-empty \<open>nm\<close>
  without a newline, and white space up to the end.
\<close>

definition header_matches :: "string \<Rightarrow> string \<Rightarrow> string \<Rightarrow> bool" where
  "header_matches line ts nm =
     (\<exists>ws ws'. line = ''['' @ ts @ '']'' @ ws @ nm @ ws'
        \<and> ts \<noteq> [] \<and> CHR '']'' \<notin> set ts
        \<and> ws \<noteq> [] \<and> list_all py_isspace ws
        \<and> nm \<noteq> [] \<and> NL \<notin> set nm
        \<and> list_all py_isspace ws')"

section \<open>searcher.py: filters\<close>

subsection \<open>compile_contains_pattern\<close>

text \<open>
  The two patterns the function compiles are \<^verbatim>\<open>(?<!\w)\<close> + \<open>re.escape(token)\<close> +
  \<^verbatim>\<open>(?!\w)\<close> and \<open>re.escape(s)\<close>, both with \<open>re.IGNORECASE\<close>. A compiled pattern is the
  list of its atoms: the two look-arounds, and one literal for each character of the escaped
  text (\<open>re.escape\<close> makes every character match itself). A literal matches a character of
  the same lower case.
\<close>

datatype re_atom = NotAfterWord | NotBeforeWord | Lit char

type_synonym pattern = "re_atom list"

definition re_escape :: "string \<Rightarrow> pattern" where
  "re_escape s = map Lit s"

text \<open>\<open>match_at p prev s\<close>: the pattern matches at the position before \<open>s\<close>; \<open>prev\<close> is the
  character before that position, if there is one.\<close>

fun match_at :: "pattern \<Rightarrow> char option \<Rightarrow> string \<Rightarrow> bool" where
  "match_at [] prev s = True"
| "match_at (NotAfterWord # p) prev s =
     ((case prev of None \<Rightarrow> True | Some b \<Rightarrow> \<not> is_word_char b) \<and> match_at p prev s)"
| "match_at (NotBeforeWord # p) prev s =
     ((case s of [] \<Rightarrow> True | c # _ \<Rightarrow> \<not> is_word_char c) \<and> match_at p prev s)"
| "match_at (Lit x # p) prev s =
     (case s of [] \<Rightarrow> False | c # cs \<Rightarrow> lower_char c = lower_char x \<and> match_at p (Some c) cs)"

fun search_from :: "pattern \<Rightarrow> char option \<Rightarrow> string \<Rightarrow> bool" where
  "search_from p prev [] = match_at p prev []"
| "search_from p prev (c # cs) = (match_at p prev (c # cs) \<or> search_from p (Some c) cs)"

definition re_search :: "pattern \<Rightarrow> string \<Rightarrow> bool" where
  "re_search p s = search_from p None s"

definition compile_contains_pattern :: "string \<Rightarrow> string \<times> pattern" where
  "compile_contains_pattern user_input =
     (let s = py_strip user_input in
      if length s \<ge> 2 \<and> hd s = DQUOTE \<and> last s = DQUOTE
      then (let token = butlast (tl s) in
            (user_input, [NotAfterWord] @ re_escape token @ [NotBeforeWord]))
      else (user_input, re_escape s))"

subsection \<open>matches_filters\<close>

text \<open>The \<open>filters\<close> dictionary, one field for each key that \<open>matches_filters\<close> reads;
  \<open>None\<close> is Python's \<open>None\<close>.\<close>

record FilterCriteria =
  date_filter :: "string option"
  name_filter :: "string option"
  contains_pat :: "pattern option"
  exclude_filter :: "string option"
  has_att_filter :: "bool option"
  att_ext_filter :: "string option"

definition matches_filters :: "Message \<Rightarrow> FilterCriteria \<Rightarrow> bool" where
  "matches_filters msg filters =
     (if date_filter filters \<noteq> None \<and> date msg \<noteq> the (date_filter filters) then False
      else if name_filter filters \<noteq> None \<and> py_lower (name msg) \<noteq> py_lower (the (name_filter filters))
      then False
      else let hay = (case content msg of None \<Rightarrow> [] | Some c \<Rightarrow> c) in
        if contains_pat filters \<noteq> None \<and> \<not> re_search (the (contains_pat filters)) hay then False
        else if exclude_filter filters \<noteq> None
                \<and> py_contains (py_lower hay) (py_lower (the (exclude_filter filters))) then False
        else let has_att = (length (attachments msg) > 0) in
          if has_att_filter filters \<noteq> None \<and> has_att \<noteq> the (has_att_filter filters) then False
          else if att_ext_filter filters \<noteq> None then
            (if \<not> has_att then False
             else let want = lstrip_chars {CHR ''.''} (py_lower (the (att_ext_filter filters))) in
               if \<not> list_ex (\<lambda>a. ext a = want) (attachments msg) then False else True)
          else True)"

section \<open>searcher.py: the report\<close>

subsection \<open>str of an integer\<close>

definition digit_char :: "nat \<Rightarrow> char" where
  "digit_char d = char_of (48 + d)"

fun digits_of :: "nat \<Rightarrow> string" where
  "digits_of n = (if n < 10 then [digit_char n] else digits_of (n div 10) @ [digit_char (n mod 10)])"

definition py_str_int :: "int \<Rightarrow> string" where
  "py_str_int i = (if i < 0 then CHR ''-'' # digits_of (nat (- i)) else digits_of (nat i))"

subsection \<open>build_file_summary\<close>

text \<open>\<open>by_file\<close> is a dictionary that keeps its keys in insertion order: an association
  list with one entry for each key.\<close>

fun setdefault_append :: "string \<Rightarrow> int \<Rightarrow> (string \<times> int list) list \<Rightarrow> (string \<times> int list) list" where
  "setdefault_append k v [] = [(k, [v])]"
| "setdefault_append k v ((k', vs) # d) =
     (if k' = k then (k', vs @ [v]) # d else (k', vs) # setdefault_append k v d)"

fun group_by_file :: "Message list \<Rightarrow> (string \<times> int list) list \<Rightarrow> (string \<times> int list) list" where
  "group_by_file [] by_file = by_file"
| "group_by_file (m # ms) by_file =
     group_by_file ms (setdefault_append (source_file m) (start_line m) by_file)"

definition summary_key :: "string \<times> int list \<Rightarrow> int \<times> string" where
  "summary_key kv = (- int (length (snd kv)), py_lower (fst kv))"

definition summary_line :: "string \<times> int list \<Rightarrow> string" where
  "summary_line kv =
     (let fname = fst kv;
          line_nums_sorted = sort (snd kv);
          count = length line_nums_sorted
      in if count \<le> MAX_LINES_LISTED_PER_FILE
         then ''Found '' @ py_str_int (int count) @ '' entries in '' @ fname @ '' on lines ''
              @ py_join '', '' (map py_str_int line_nums_sorted)
         else (let shown = take MAX_LINES_LISTED_PER_FILE line_nums_sorted;
                   remaining = int count - int MAX_LINES_LISTED_PER_FILE
               in ''Found '' @ py_str_int (int count) @ '' entries in '' @ fname @ '' on lines ''
                  @ py_join '', '' (map py_str_int shown)
                  @ '', ... (+'' @ py_str_int remaining @ '' more)''))"

definition summary_items :: "Message list \<Rightarrow> (string \<times> int list) list" where
  "summary_items matched = sort_key summary_key (group_by_file matched [])"

definition build_file_summary :: "Message list \<Rightarrow> string" where
  "build_file_summary matched =
     (let by_file = group_by_file matched [] in
      if by_file = [] then py_join [NL] [''Per-file summary:'', ''(No matches.)''] @ [NL]
      else py_join [NL] (''Per-file summary:'' # map summary_line (sort_key summary_key by_file)) @ [NL])"

subsection \<open>strip_trailing_divider\<close>

definition strip_trailing_divider :: "string \<Rightarrow> string" where
  "strip_trailing_divider raw =
     (let lines0 = py_splitlines True raw;
          lines1 = pop_blank_lines lines0;
          lines2 = (if lines1 \<noteq> [] \<and> py_strip (last lines1) = DIVIDER then butlast lines1 else lines1);
          out = concat lines2
      in if out \<noteq> [] \<and> \<not> py_endswith out [NL] then out @ [NL] else out)"

subsection \<open>compute_total_chars_for_output\<close>

text \<open>The first loop of both functions: \<open>last_index_for_file\<close> after the matches from
  index \<open>i\<close> on have been entered.\<close>

fun last_index_loop :: "nat \<Rightarrow> Message list \<Rightarrow> (string \<rightharpoonup> nat) \<Rightarrow> (string \<rightharpoonup> nat)" where
  "last_index_loop i [] d = d"
| "last_index_loop i (m # ms) d = last_index_loop (Suc i) ms (d(source_file m \<mapsto> i))"

definition output_block :: "(string \<rightharpoonup> nat) \<Rightarrow> nat \<Rightarrow> Message \<Rightarrow> string" where
  "output_block last_index_for_file i m =
     (let is_last_in_file_group = (last_index_for_file (source_file m) = Some i) in
      if is_last_in_file_group then strip_trailing_divider (raw_block m) else raw_block m)"

fun total_loop :: "(string \<rightharpoonup> nat) \<Rightarrow> nat \<Rightarrow> Message list \<Rightarrow> nat \<Rightarrow> nat" where
  "total_loop d i [] tot = tot"
| "total_loop d i (m # ms) tot =
     total_loop d (Suc i) ms (tot + length (output_block d i m) + 1)"

definition compute_total_chars_for_output :: "Message list \<Rightarrow> nat" where
  "compute_total_chars_for_output matched =
     (if matched = [] then 0
      else total_loop (last_index_loop 0 matched Map.empty) 0 matched 0)"

subsection \<open>write_matched_grouped_by_file\<close>

text \<open>The file \<open>f\<close> is the list of the strings written to it, in order. A write is tagged
  with what it belongs to, a file-header banner or the text of a block, so that the two can
  be told apart afterwards; the file's content is the concatenation of all of them.\<close>

datatype written = Banner string | Body string

fun written_text :: "written \<Rightarrow> string" where
  "written_text (Banner s) = s"
| "written_text (Body s) = s"

definition file_content :: "written list \<Rightarrow> string" where
  "file_content f = concat (map written_text f)"

definition body_text :: "written list \<Rightarrow> string" where
  "body_text f = concat (map (\<lambda>w. case w of Banner _ \<Rightarrow> [] | Body s \<Rightarrow> s) f)"

fun write_loop :: "(string \<rightharpoonup> nat) \<Rightarrow> nat \<Rightarrow> Message list \<Rightarrow> string option \<Rightarrow> written list \<Rightarrow> written list" where
  "write_loop d i [] current_file f = f"
| "write_loop d i (m # ms) current_file f =
     (let f1 = (if current_file \<noteq> Some (source_file m)
                then f @ [Banner (replicate 60 (CHR ''='') @ [NL]),
                          Banner (source_file m @ [NL]),
                          Banner (replicate 60 (CHR ''='') @ [NL, NL])]
                else f);
          block = output_block d i m;
          f2 = f1 @ [Body block];
          f3 = (if \<not> py_endswith block [NL] then f2 @ [Body [NL]] else f2)
      in write_loop d (Suc i) ms (Some (source_file m)) (f3 @ [Body [NL]]))"

definition write_matched_grouped_by_file :: "written list \<Rightarrow> Message list \<Rightarrow> written list" where
  "write_matched_grouped_by_file f matched =
     (if matched = [] then f
      else write_loop (last_index_loop 0 matched Map.empty) 0 matched None f)"

text \<open>
  The blocks of the report as the specification words them. The trailing divider line of a
  text is its last line when that line is the divider followed by a newline; stripped of it,
  the text is what stands before that line. A match is the last of its file-group in the
  sequence when no later match has its \<open>source_file\<close>; that match has its trailing
  divider line stripped, and every other \<open>raw_block\<close> is taken as it is.
\<close>

definition without_trailing_divider_line :: "string \<Rightarrow> string" where
  "without_trailing_divider_line b =
     (if b = DIVIDER @ [NL] \<or> py_endswith b ([NL] @ DIVIDER @ [NL])
      then take (length b - length (DIVIDER @ [NL])) b else b)"

fun report_blocks :: "Message list \<Rightarrow> string list" where
  "report_blocks [] = []"
| "report_blocks (m # ms) =
     (if source_file m \<in> source_file ` set ms then raw_block m
      else without_trailing_divider_line (raw_block m)) # report_blocks ms"

section \<open>parser.py: from JSON records to the archived text\<close>

text \<open>
  What \<open>json.loads\<close> returns. Numbers are the integers; a number with a fraction or an
  exponent is outside the model. An object is the list of its items, each key once.
\<close>

datatype json = JNull | JBool bool | JInt int | JStr string | JArr "json list"
  | JObj "(string \<times> json) list"

datatype error = AttributeError

text \<open>\<open>d.get(k)\<close>: \<open>None\<close> for a missing key.\<close>

definition dict_get :: "(string \<times> json) list \<Rightarrow> string \<Rightarrow> json" where
  "dict_get d k = (case map_of d k of None \<Rightarrow> JNull | Some v \<Rightarrow> v)"

text \<open>Truth value of an object, as \<open>or\<close>, \<open>and\<close> and \<open>if\<close> test it.\<close>

fun truthy :: "json \<Rightarrow> bool" where
  "truthy JNull = False"
| "truthy (JBool b) = b"
| "truthy (JInt i) = (i \<noteq> 0)"
| "truthy (JStr s) = (s \<noteq> [])"
| "truthy (JArr xs) = (xs \<noteq> [])"
| "truthy (JObj kvs) = (kvs \<noteq> [])"

definition py_or :: "json \<Rightarrow> json \<Rightarrow> json" where
  "py_or a b = (if truthy a then a else b)"

text \<open>
  \<open>str(v)\<close> is \<open>v\<close> itself for a string. For the other values it is Python's built-in
  rendering, which the functions below take as the parameter \<open>str_of\<close>. They take the
  table \<open>NAME_REPLACEMENTS\<close> as the parameter \<open>repl\<close>: its one key in the source is the
  code point U+13127.
\<close>

definition py_str :: "(json \<Rightarrow> string) \<Rightarrow> json \<Rightarrow> string" where
  "py_str str_of v = (case v of JStr s \<Rightarrow> s | _ \<Rightarrow> str_of v)"

definition ENABLE_NAME_REPLACEMENTS :: bool where
  "ENABLE_NAME_REPLACEMENTS = True"

definition normalize_name :: "(string \<times> string) list \<Rightarrow> string \<Rightarrow> string" where
  "normalize_name repl nm =
     (if \<not> ENABLE_NAME_REPLACEMENTS then nm
      else (case map_of repl nm of None \<Rightarrow> nm | Some r \<Rightarrow> r))"

definition get_global_name ::
  "(string \<times> string) list \<Rightarrow> (json \<Rightarrow> string) \<Rightarrow> (string \<times> json) list \<Rightarrow> error + string" where
  "get_global_name repl str_of msg =
     (case py_or (dict_get msg ''author'') (JObj []) of
        JObj author \<Rightarrow>
          Inr (normalize_name repl
                (py_str str_of
                   (py_or (py_or (dict_get author ''global_name'') (dict_get author ''username''))
                          (JStr ''Unknown''))))
      | _ \<Rightarrow> Inl AttributeError)"

definition norm_text :: "json \<Rightarrow> string option" where
  "norm_text v =
     (case v of
        JStr s \<Rightarrow> (let t = py_strip s in if t \<noteq> [] then Some t else None)
      | _ \<Rightarrow> None)"

fun attachments_loop :: "(json \<Rightarrow> string) \<Rightarrow> json list \<Rightarrow> (string \<times> string) list \<Rightarrow> (string \<times> string) list" where
  "attachments_loop str_of [] out = out"
| "attachments_loop str_of (att # atts) out =
     (case att of
        JObj d \<Rightarrow>
          (let fname = dict_get d ''filename''; url = dict_get d ''proxy_url'' in
           if truthy fname \<and> truthy url
           then attachments_loop str_of atts (out @ [(py_str str_of fname, py_str str_of url)])
           else attachments_loop str_of atts out)
      | _ \<Rightarrow> attachments_loop str_of atts out)"

definition extract_attachments :: "(json \<Rightarrow> string) \<Rightarrow> (string \<times> json) list \<Rightarrow> (string \<times> string) list" where
  "extract_attachments str_of msg =
     (case dict_get msg ''attachments'' of
        JArr atts \<Rightarrow> attachments_loop str_of atts []
      | _ \<Rightarrow> [])"

fun attachment_lines :: "(string \<times> string) list \<Rightarrow> string list" where
  "attachment_lines [] = []"
| "attachment_lines ((fname, url) # r) =
     (''Attachment: '' @ fname) # (''Proxy: '' @ url) # attachment_lines r"

definition format_message ::
  "(string \<times> string) list \<Rightarrow> (json \<Rightarrow> string) \<Rightarrow> (string \<times> json) list \<Rightarrow> error + string" where
  "format_message repl str_of msg =
     (let ts = py_or (dict_get msg ''timestamp'') (JStr ''NO_TIMESTAMP'') in
      case get_global_name repl str_of msg of
        Inl e \<Rightarrow> Inl e
      | Inr nm \<Rightarrow>
          (let c = norm_text (dict_get msg ''content'');
               lines0 = [''['' @ py_str str_of ts @ ''] '' @ nm];
               lines1 = (case c of None \<Rightarrow> lines0 | Some t \<Rightarrow> lines0 @ [t]);
               lines2 = lines1 @ attachment_lines (extract_attachments str_of msg)
           in Inr (py_join [NL] (lines2 @ [DIVIDER]))))"

subsection \<open>sort_messages_chronological\<close>

definition is_dict :: "json \<Rightarrow> bool" where
  "is_dict x = (case x of JObj _ \<Rightarrow> True | _ \<Rightarrow> False)"

text \<open>The sort key. The list holds objects only; \<open>m.get\<close> is read on the items of \<open>m\<close>.\<close>

definition chrono_key :: "json \<Rightarrow> nat \<times> string" where
  "chrono_key m =
     (case (case m of JObj d \<Rightarrow> dict_get d ''timestamp'' | _ \<Rightarrow> JNull) of
        JStr ts \<Rightarrow> if ts \<noteq> [] then (0, ts) else (1, ''9999-99-99T99:99:99.999999+99:99'')
      | _ \<Rightarrow> (1, ''9999-99-99T99:99:99.999999+99:99''))"

text \<open>\<open>list.sort(key=key)\<close> is stable, as \<^const>\<open>sort_key\<close> is.\<close>

definition sort_messages_chronological :: "json list \<Rightarrow> json list" where
  "sort_messages_chronological data = sort_key chrono_key (filter is_dict data)"

text \<open>The timestamp the sort goes by, if the record has one: a string that is not empty.\<close>

definition record_timestamp :: "json \<Rightarrow> string option" where
  "record_timestamp m =
     (case m of
        JObj d \<Rightarrow> (case dict_get d ''timestamp'' of
                     JStr ts \<Rightarrow> if ts \<noteq> [] then Some ts else None
                   | _ \<Rightarrow> None)
      | _ \<Rightarrow> None)"

section \<open>The block tokenizer as the specification words it\<close>

text \<open>
  The lines with their 1-based numbers are split at the divider lines; a span between
  dividers (the last one ends at the end of the input) is a candidate block; a candidate
  with a non-blank line is recorded with the number of its first non-blank line, and a
  candidate of blank lines only is discarded.
\<close>

fun number_lines :: "int \<Rightarrow> string list \<Rightarrow> (int \<times> string) list" where
  "number_lines i [] = []"
| "number_lines i (l # ls) = (i, l) # number_lines (i + 1) ls"

fun split_on_divider :: "(int \<times> string) list \<Rightarrow> (int \<times> string) list list" where
  "split_on_divider [] = [[]]"
| "split_on_divider (il # r) =
     (if py_strip (snd il) = DIVIDER then [] # split_on_divider r
      else (case split_on_divider r of [] \<Rightarrow> [[il]] | g # gs \<Rightarrow> (il # g) # gs))"

definition first_nonblank :: "(int \<times> string) list \<Rightarrow> int option" where
  "first_nonblank g =
     (case filter (\<lambda>il. py_strip (snd il) \<noteq> []) g of [] \<Rightarrow> None | il # _ \<Rightarrow> Some (fst il))"

definition candidate :: "(int \<times> string) list \<Rightarrow> (int \<times> string list) option" where
  "candidate g = (case first_nonblank g of None \<Rightarrow> None | Some start \<Rightarrow> Some (start, map snd g))"

definition candidate_blocks :: "string list \<Rightarrow> (int \<times> string list) list" where
  "candidate_blocks lines = List.map_filter candidate (split_on_divider (number_lines 1 lines))"

section \<open>Records that survive the round trip\<close>

text \<open>
  The archived format is line-oriented and escapes nothing. The predicates below say which
  field values it carries unchanged: text without line boundaries, names and attachment
  fields without white space at their ends, and content whose lines (as \<open>split("\n")\<close>
  gives them) are not blank, do not look like an attachment, proxy or divider line and
  hold no other line boundary.
\<close>

definition no_linebreak :: "string \<Rightarrow> bool" where
  "no_linebreak s = list_all (\<lambda>c. \<not> is_linebreak c) s"

fun split_nl :: "string \<Rightarrow> string list" where
  "split_nl [] = [[]]"
| "split_nl (c # cs) =
     (if c = NL then [] # split_nl cs
      else (case split_nl cs of [] \<Rightarrow> [[c]] | l # ls \<Rightarrow> (c # l) # ls))"

definition plain_line :: "string \<Rightarrow> bool" where
  "plain_line l \<longleftrightarrow>
     no_linebreak l \<and> py_strip l \<noteq> []
     \<and> \<not> py_startswith l ''Attachment:'' \<and> \<not> py_startswith l ''Proxy:''
     \<and> py_strip l \<noteq> DIVIDER"

definition plain_field :: "string \<Rightarrow> bool" where
  "plain_field s \<longleftrightarrow> py_strip s = s \<and> no_linebreak s"

definition round_trip_safe ::
  "string \<Rightarrow> string \<Rightarrow> string option \<Rightarrow> (string \<times> string) list \<Rightarrow> bool" where
  "round_trip_safe ts nm c atts \<longleftrightarrow>
     ts \<noteq> [] \<and> CHR '']'' \<notin> set ts \<and> no_linebreak ts
     \<and> nm \<noteq> [] \<and> plain_field nm
     \<and> (case c of None \<Rightarrow> True | Some t \<Rightarrow> list_all plain_line (split_nl t))
     \<and> list_all (\<lambda>fu. plain_field (fst fu) \<and> plain_field (snd fu)) atts"

section \<open>The header pattern\<close>

lemma takeWhile_neq_append: "c \<notin> set xs \<Longrightarrow> takeWhile (\<lambda>x. x \<noteq> c) (xs @ c # ys) = xs"
  by (induction xs) auto

lemma dropWhile_neq_append: "c \<notin> set xs \<Longrightarrow> dropWhile (\<lambda>x. x \<noteq> c) (xs @ c # ys) = c # ys"
  by (induction xs) auto

lemma notin_takeWhile_neq: "c \<notin> set (takeWhile (\<lambda>x. x \<noteq> c) xs)"
  by (induction xs) auto

lemma lazy_name_sound:
  "lazy_name acc s = Some r \<Longrightarrow>
     \<exists>n \<le> length s. r = acc @ take n s \<and> NL \<notin> set (take n s) \<and> list_all py_isspace (drop n s)"
proof (induction s arbitrary: acc)
  case Nil
  then show ?case by simp
next
  case (Cons c cs)
  show ?case
  proof (cases "list_all py_isspace (c # cs)")
    case True
    with Cons.prems have "r = acc" by simp
    with True show ?thesis by (intro exI[of _ 0]) simp
  next
    case False
    with Cons.prems have c: "c \<noteq> NL" and r: "lazy_name (acc @ [c]) cs = Some r"
      by (auto split: if_splits)
    from Cons.IH[OF r] obtain n where n: "n \<le> length cs" "r = (acc @ [c]) @ take n cs"
      "NL \<notin> set (take n cs)" "list_all py_isspace (drop n cs)" by blast
    with c show ?thesis by (intro exI[of _ "Suc n"]) simp
  qed
qed

lemma lazy_name_complete:
  "n \<le> length s \<Longrightarrow> NL \<notin> set (take n s) \<Longrightarrow> list_all py_isspace (drop n s) \<Longrightarrow>
     lazy_name acc s \<noteq> None"
proof (induction s arbitrary: acc n)
  case Nil
  then show ?case by simp
next
  case (Cons c cs)
  show ?case
  proof (cases "list_all py_isspace (c # cs)")
    case True
    then show ?thesis by simp
  next
    case False
    with Cons.prems obtain k where k: "n = Suc k" by (cases n) auto
    with Cons.prems have "c \<noteq> NL" "k \<le> length cs" "NL \<notin> set (take k cs)" "list_all py_isspace (drop k cs)"
      by auto
    with Cons.IH[of k "acc @ [c]"] False show ?thesis by simp
  qed
qed

lemma lazy_name_full:
  "NL \<notin> set s \<Longrightarrow> (s \<noteq> [] \<Longrightarrow> \<not> py_isspace (last s)) \<Longrightarrow> lazy_name acc s = Some (acc @ s)"
proof (induction s arbitrary: acc)
  case Nil
  then show ?case by simp
next
  case (Cons c cs)
  have ns: "\<not> list_all py_isspace (c # cs)"
    using Cons.prems(2) by (metis last_in_set list.distinct(1) list_all_iff)
  have c: "c \<noteq> NL" using Cons.prems(1) by auto
  have "lazy_name (acc @ [c]) cs = Some ((acc @ [c]) @ cs)"
    using Cons.prems by (intro Cons.IH) (auto split: if_splits)
  with ns c show ?case by simp
qed

lemma name_at_sound:
  "name_at s = Some nm \<Longrightarrow>
     \<exists>ws'. s = nm @ ws' \<and> nm \<noteq> [] \<and> NL \<notin> set nm \<and> list_all py_isspace ws'"
proof -
  assume a: "name_at s = Some nm"
  then obtain c cs where s: "s = c # cs" and c: "c \<noteq> NL" and l: "lazy_name [c] cs = Some nm"
    by (auto simp: name_at_def split: list.splits if_splits)
  from lazy_name_sound[OF l] obtain n where n: "n \<le> length cs" "nm = [c] @ take n cs"
    "NL \<notin> set (take n cs)" "list_all py_isspace (drop n cs)" by blast
  have "s = nm @ drop n cs" using s n by simp
  with n c show ?thesis by (intro exI[of _ "drop n cs"]) auto
qed

lemma name_at_complete:
  assumes "nm \<noteq> []" "NL \<notin> set nm" "list_all py_isspace ws'"
  shows "name_at (nm @ ws') \<noteq> None"
proof -
  from assms(1) obtain c cs where nm: "nm = c # cs" by (cases nm) auto
  have c: "c \<noteq> NL" using assms nm by auto
  have "lazy_name [c] (cs @ ws') \<noteq> None"
    using assms nm by (intro lazy_name_complete[of "length cs"]) auto
  with nm c show ?thesis by (simp add: name_at_def)
qed

lemma name_at_full:
  assumes "nm \<noteq> []" "NL \<notin> set nm" "\<not> py_isspace (last nm)"
  shows "name_at nm = Some nm"
proof -
  from assms(1) obtain c cs where nm: "nm = c # cs" by (cases nm) auto
  have c: "c \<noteq> NL" using assms nm by auto
  have "lazy_name [c] cs = Some ([c] @ cs)"
    using assms nm by (intro lazy_name_full) (auto split: if_splits)
  with nm c show ?thesis by (simp add: name_at_def)
qed

lemma greedy_space_Some:
  "greedy_space k rest = Some nm \<Longrightarrow> \<exists>j. 1 \<le> j \<and> j \<le> k \<and> name_at (drop j rest) = Some nm"
proof (induction k)
  case 0
  then show ?case by simp
next
  case (Suc k)
  show ?case
  proof (cases "name_at (drop (Suc k) rest)")
    case None
    with Suc.prems have "greedy_space k rest = Some nm" by simp
    from Suc.IH[OF this] show ?thesis by (meson le_Suc_eq)
  next
    case (Some a)
    with Suc.prems have "a = nm" by simp
    with Some show ?thesis by (intro exI[of _ "Suc k"]) simp
  qed
qed

lemma greedy_space_None:
  "greedy_space k rest = None \<Longrightarrow> 1 \<le> j \<Longrightarrow> j \<le> k \<Longrightarrow> name_at (drop j rest) = None"
proof (induction k)
  case 0
  then show ?case by simp
next
  case (Suc k)
  then show ?case by (cases "j = Suc k") (auto split: option.splits)
qed

lemma parse_header_sound:
  assumes "parse_header line = Some (ts, nm)"
  shows "header_matches line ts nm"
proof -
  from assms obtain r where line: "line = CHR ''['' # r"
    by (auto simp: parse_header_def split: list.splits if_splits)
  from assms line have ts: "takeWhile (\<lambda>x. x \<noteq> CHR '']'') r = ts" and tsne: "ts \<noteq> []"
    by (auto simp: parse_header_def Let_def split: list.splits if_splits option.splits)
  from assms line obtain x rest where dr: "dropWhile (\<lambda>x. x \<noteq> CHR '']'') r = x # rest"
    by (auto simp: parse_header_def Let_def split: list.splits if_splits option.splits)
  have "\<not> (hd (dropWhile (\<lambda>x. x \<noteq> CHR '']'') r) \<noteq> CHR '']'')"
    by (rule hd_dropWhile) (simp add: dr)
  then have x: "x = CHR '']''" by (simp add: dr)
  from assms line dr have g: "greedy_space (length (takeWhile py_isspace rest)) rest = Some nm"
    by (auto simp: parse_header_def Let_def split: list.splits if_splits option.splits)
  from greedy_space_Some[OF g] obtain j where j: "1 \<le> j" "j \<le> length (takeWhile py_isspace rest)"
    "name_at (drop j rest) = Some nm" by blast
  from name_at_sound[OF j(3)] obtain ws' where ws': "drop j rest = nm @ ws'" "nm \<noteq> []" "NL \<notin> set nm"
    "list_all py_isspace ws'" by blast
  obtain ws where ws: "ws = take j rest" by simp
  have "take j rest = take j (takeWhile py_isspace rest @ dropWhile py_isspace rest)" by simp
  also have "\<dots> = take j (takeWhile py_isspace rest)" using j(2) by (simp del: takeWhile_dropWhile_id)
  finally have tk: "ws = take j (takeWhile py_isspace rest)" by (simp add: ws)
  have sp: "list_all py_isspace ws"
    unfolding tk list_all_iff by (meson in_set_takeD set_takeWhileD)
  have ne: "ws \<noteq> []" using j unfolding ws by auto
  have rest: "rest = ws @ nm @ ws'"
    unfolding ws ws'(1)[symmetric] by simp
  have r: "r = ts @ CHR '']'' # rest"
    using takeWhile_dropWhile_id[of "\<lambda>x. x \<noteq> CHR '']''" r] unfolding ts dr x by simp
  have nb: "CHR '']'' \<notin> set ts" unfolding ts[symmetric] by (rule notin_takeWhile_neq)
  have "line = ''['' @ ts @ '']'' @ ws @ nm @ ws'"
    by (simp add: line r rest)
  with tsne nb ne sp ws'(2,3,4) show ?thesis
    unfolding header_matches_def by blast
qed

lemma takeWhile_isspace_prefix:
  "list_all py_isspace ws \<Longrightarrow> length ws \<le> length (takeWhile py_isspace (ws @ s))"
  by (induction ws) auto

lemma parse_header_complete:
  assumes "header_matches line ts nm"
  shows "parse_header line \<noteq> None"
proof -
  from assms obtain ws ws' where d: "line = ''['' @ ts @ '']'' @ ws @ nm @ ws'"
    "ts \<noteq> []" "CHR '']'' \<notin> set ts" "ws \<noteq> []" "list_all py_isspace ws"
    "nm \<noteq> []" "NL \<notin> set nm" "list_all py_isspace ws'"
    unfolding header_matches_def by blast
  obtain rest where rest: "rest = ws @ nm @ ws'" by simp
  have tk: "takeWhile (\<lambda>x. x \<noteq> CHR '']'') (ts @ CHR '']'' # rest) = ts"
    using d(3) by (rule takeWhile_neq_append)
  have dr: "dropWhile (\<lambda>x. x \<noteq> CHR '']'') (ts @ CHR '']'' # rest) = CHR '']'' # rest"
    using d(3) by (rule dropWhile_neq_append)
  have n: "name_at (drop (length ws) rest) \<noteq> None"
    unfolding rest using name_at_complete[OF d(6,7,8)] by simp
  have k: "1 \<le> length ws" using d(4) by (cases ws) auto
  have K: "length ws \<le> length (takeWhile py_isspace rest)"
    unfolding rest by (rule takeWhile_isspace_prefix[OF d(5)])
  have g: "greedy_space (length (takeWhile py_isspace rest)) rest \<noteq> None"
  proof
    assume "greedy_space (length (takeWhile py_isspace rest)) rest = None"
    from greedy_space_None[OF this k K] n show False by simp
  qed
  have line': "line = CHR ''['' # (ts @ CHR '']'' # rest)" by (simp add: d(1) rest)
  show ?thesis
    using g d(2) unfolding parse_header_def line' by (simp add: tk dr split: option.splits)
qed

section \<open>The derived date\<close>

text \<open>
  C8, as stated: the date is the first 10 characters of the timestamp whenever the
  characters at offsets 4 and 7 are \<open>-\<close>. The header \<open>[2024-01-] bob\<close> parses to the
  timestamp \<open>2024-01-\<close>, of 8 characters with \<open>-\<close> at offsets 4 and 7; its date is the
  sentinel, not its first 10 characters.
\<close>

theorem derive_date_short_timestamp_counterexample:
  "parse_header ''[2024-01-] bob'' = Some (''2024-01-'', ''bob'')
   \<and> ''2024-01-'' ! 4 = CHR ''-'' \<and> ''2024-01-'' ! 7 = CHR ''-''
   \<and> derive_date_from_timestamp ''2024-01-'' = ''NO_DATE''
   \<and> derive_date_from_timestamp ''2024-01-'' \<noteq> take 10 ''2024-01-''"
  by code_simp

text \<open>
  C8, amended: the date of every parsed message is the first 10 characters of its
  timestamp when the timestamp has at least 10 characters and those at offsets 4 and 7
  are \<open>-\<close>, and the sentinel \<open>NO_DATE\<close> otherwise.
\<close>

theorem parsed_date:
  assumes "parse_block block_lines src start = Some m"
  shows "date m =
           (if 10 \<le> length (timestamp m) \<and> timestamp m ! 4 = CHR ''-'' \<and> timestamp m ! 7 = CHR ''-''
            then take 10 (timestamp m) else ''NO_DATE'')"
  using assms
  by (auto simp: parse_block_def Let_def derive_date_from_timestamp_def
           split: list.splits option.splits if_splits prod.splits)

lemma parse_block_example:
  "parse_block [''[2024-01-02T10:00:00Z] bob'', ''hi''] ''a.txt'' 1 =
     Some \<lparr>timestamp = ''2024-01-02T10:00:00Z'', date = ''2024-01-02'', name = ''bob'',
           content = Some ''hi'', attachments = [],
           raw_block = ''[2024-01-02T10:00:00Z] bob'' @ [NL] @ ''hi'' @ [NL] @ DIVIDER @ [NL],
           source_file = ''a.txt'', start_line = 1\<rparr>"
  by code_simp

theorem parsed_date_witness:
  "\<exists>m. parse_block [''[2024-01-02T10:00:00Z] bob'', ''hi''] ''a.txt'' 1 = Some m
       \<and> date m = ''2024-01-02''"
  using parsed_date [OF parse_block_example] parse_block_example by simp

section \<open>Blocks without a header\<close>

lemma pop_blank_lines_prefix: "\<exists>zs. xs = pop_blank_lines xs @ zs"
proof -
  have "rev xs = takeWhile (\<lambda>l. py_strip l = []) (rev xs) @ dropWhile (\<lambda>l. py_strip l = []) (rev xs)"
    by simp
  then have "xs = rev (dropWhile (\<lambda>l. py_strip l = []) (rev xs)) @ rev (takeWhile (\<lambda>l. py_strip l = []) (rev xs))"
    by (metis rev_append rev_rev_ident)
  then show ?thesis unfolding pop_blank_lines_def by blast
qed

lemma pop_blank_lines_Cons:
  "pop_blank_lines (x # xs) = [] \<or> (\<exists>ys. pop_blank_lines (x # xs) = x # ys)"
proof -
  obtain zs where z: "x # xs = pop_blank_lines (x # xs) @ zs"
    using pop_blank_lines_prefix by blast
  show ?thesis
  proof (cases "pop_blank_lines (x # xs)")
    case Nil
    then show ?thesis by simp
  next
    case (Cons y ys)
    with z have "y = x" by simp
    with Cons show ?thesis by simp
  qed
qed

text \<open>
  C5: a block whose first line does not match the header pattern, with whatever groups,
  yields no message: \<open>parse_block\<close> returns \<open>None\<close> (it has no failing branch at all), and
  flushing the block leaves the list of messages as it was.
\<close>

theorem header_mismatch_dropped:
  assumes "\<forall>ts nm. \<not> header_matches first ts nm"
  shows "parse_block (first # rest) src start = None
         \<and> messages (flush_block src \<lparr>messages = msgs, current_block = first # rest,
                                       current_start_line = Some start\<rparr>) = msgs"
proof -
  have h: "parse_header first = None"
  proof (cases "parse_header first")
    case None
    then show ?thesis .
  next
    case (Some p)
    then have "header_matches first (fst p) (snd p)" by (intro parse_header_sound) simp
    with assms show ?thesis by blast
  qed
  have pb: "parse_block (first # rest) src start = None"
    using pop_blank_lines_Cons[of first rest] h
    by (auto simp: parse_block_def Let_def)
  then show ?thesis by (simp add: flush_block_def)
qed

lemma no_header_example: "\<forall>ts nm. \<not> header_matches ''[2024-01-01T10:00:00]bob'' ts nm"
proof (intro allI notI)
  fix ts nm
  assume "header_matches ''[2024-01-01T10:00:00]bob'' ts nm"
  then have "parse_header ''[2024-01-01T10:00:00]bob'' \<noteq> None" by (rule parse_header_complete)
  moreover have "parse_header ''[2024-01-01T10:00:00]bob'' = None" by code_simp
  ultimately show False by simp
qed

theorem header_mismatch_dropped_witness:
  "parse_block [''[2024-01-01T10:00:00]bob'', ''hello''] ''a.txt'' 1 = None
   \<and> messages (flush_block ''a.txt'' \<lparr>messages = [], current_block = [''[2024-01-01T10:00:00]bob'', ''hello''],
                                       current_start_line = Some 1\<rparr>) = []"
  using header_mismatch_dropped [OF no_header_example, of "[''hello'']" "''a.txt''" 1 "[]"] by simp

section \<open>The report: blocks and character total\<close>

lemma is_linebreak_NL [simp]: "is_linebreak NL"
  by (simp add: is_linebreak_def code_point_def)

lemma py_isspace_NL [simp]: "py_isspace NL"
  by (simp add: py_isspace_def code_point_def)

lemma splitlines_from_NL:
  "splitlines_from k cur (NL # b) = (cur @ (if k then [NL] else [])) # splitlines_from k [] b"
  by (cases b) auto

lemma splitlines_from_append_NL:
  "splitlines_from k cur (a @ NL # b) = splitlines_from k cur (a @ [NL]) @ splitlines_from k [] b"
proof (induction k cur a rule: splitlines_from.induct)
  case (1 keepends cur)
  show ?case by (simp add: splitlines_from_NL)
next
  case (2 keepends cur c)
  show ?case by (simp add: splitlines_from_NL)
next
  case (3 keepends cur c d cs)
  then show ?case by simp
qed

lemma concat_splitlines_from: "concat (splitlines_from True cur s) = cur @ s"
  by (induction True cur s rule: splitlines_from.induct) auto

lemma splitlines_divider_line: "splitlines_from True [] (DIVIDER @ [NL]) = [DIVIDER @ [NL]]"
  by code_simp

lemma strip_divider_line: "py_strip (DIVIDER @ [NL]) = DIVIDER"
  by code_simp

lemma DIVIDER_nonempty: "DIVIDER \<noteq> []"
  by code_simp

lemma pop_blank_lines_snoc: "py_strip x \<noteq> [] \<Longrightarrow> pop_blank_lines (xs @ [x]) = xs @ [x]"
  by (simp add: pop_blank_lines_def)

lemma py_endswith_snoc: "py_endswith (s @ [c]) [c]"
  by (simp add: py_endswith_def)

lemma strip_trailing_divider_block:
  "strip_trailing_divider (y @ [NL] @ DIVIDER @ [NL]) = y @ [NL]"
proof -
  have sp: "py_splitlines True (y @ [NL] @ DIVIDER @ [NL])
              = splitlines_from True [] (y @ [NL]) @ [DIVIDER @ [NL]]"
    using splitlines_from_append_NL[of True "[]" y "DIVIDER @ [NL]"]
    by (simp add: py_splitlines_def splitlines_divider_line)
  have ne: "py_strip (DIVIDER @ [NL]) \<noteq> []"
    by (simp add: strip_divider_line DIVIDER_nonempty)
  have pop: "pop_blank_lines (splitlines_from True [] (y @ [NL]) @ [DIVIDER @ [NL]])
               = splitlines_from True [] (y @ [NL]) @ [DIVIDER @ [NL]]"
    by (rule pop_blank_lines_snoc[OF ne])
  show ?thesis
    unfolding strip_trailing_divider_def sp Let_def pop
    by (simp add: strip_divider_line concat_splitlines_from py_endswith_snoc del: append_assoc)
qed

lemma parse_block_raw_block:
  assumes "parse_block block_lines src start = Some m"
  shows "raw_block m = py_rstrip (py_join [NL] (pop_blank_lines block_lines)) @ [NL] @ DIVIDER @ [NL]"
  using assms
  by (auto simp: parse_block_def Let_def split: list.splits option.splits if_splits prod.splits)

lemma parsed_block_shape:
  assumes "parse_block block_lines src start = Some m"
  shows "\<exists>y. raw_block m = y @ [NL] @ DIVIDER @ [NL]"
  using parse_block_raw_block[OF assms] by blast

lemma parsed_output_block_newline:
  assumes "parse_block block_lines src start = Some m"
  shows "py_endswith (output_block d i m) [NL]"
proof -
  obtain y where y: "raw_block m = y @ [NL] @ DIVIDER @ [NL]"
    using parsed_block_shape[OF assms] by blast
  have s: "strip_trailing_divider (raw_block m) = y @ [NL]"
    unfolding y by (rule strip_trailing_divider_block)
  have e2: "py_endswith (raw_block m) [NL]"
    unfolding y by (simp add: py_endswith_def)
  have e3: "py_endswith (strip_trailing_divider (raw_block m)) [NL]"
    unfolding s by (rule py_endswith_snoc)
  show ?thesis using e2 e3 by (simp add: output_block_def Let_def)
qed

text \<open>
  C10: the \<open>raw_block\<close> of a parsed message is not empty and ends with a newline, the
  divider and a newline; \<open>strip_trailing_divider\<close> returns a non-empty string that ends with
  a newline on it; and the block the report writes for the message, stripped or not, ends
  with a newline, so that the writer's test \<open>not block.endswith("\n")\<close> is false for it.
\<close>

theorem parsed_raw_block_ends_with_divider:
  assumes "parse_block block_lines src start = Some m"
  shows "raw_block m \<noteq> []
       \<and> py_endswith (raw_block m) ([NL] @ DIVIDER @ [NL])
       \<and> strip_trailing_divider (raw_block m) \<noteq> []
       \<and> py_endswith (strip_trailing_divider (raw_block m)) [NL]
       \<and> py_endswith (output_block d i m) [NL]"
proof -
  obtain y where y: "raw_block m = y @ [NL] @ DIVIDER @ [NL]"
    using parsed_block_shape[OF assms] by blast
  have s: "strip_trailing_divider (raw_block m) = y @ [NL]"
    unfolding y by (rule strip_trailing_divider_block)
  have e1: "py_endswith (raw_block m) ([NL] @ DIVIDER @ [NL])"
    unfolding y by (simp add: py_endswith_def)
  have e3: "py_endswith (strip_trailing_divider (raw_block m)) [NL]"
    unfolding s by (rule py_endswith_snoc)
  have n1: "raw_block m \<noteq> []" unfolding y by simp
  have n2: "strip_trailing_divider (raw_block m) \<noteq> []" unfolding s by simp
  from n1 e1 n2 e3 parsed_output_block_newline[OF assms] show ?thesis by blast
qed

theorem parsed_raw_block_ends_with_divider_witness:
  "\<exists>m. parse_block [''[2024-01-02T10:00:00Z] bob'', ''hi''] ''a.txt'' 1 = Some m
       \<and> py_endswith (raw_block m) ([NL] @ DIVIDER @ [NL])
       \<and> strip_trailing_divider (raw_block m) = ''[2024-01-02T10:00:00Z] bob'' @ [NL] @ ''hi'' @ [NL]
       \<and> py_endswith (output_block Map.empty 0 m) [NL]"
  using parsed_raw_block_ends_with_divider [OF parse_block_example, of Map.empty 0]
    strip_trailing_divider_block [of "''[2024-01-02T10:00:00Z] bob'' @ [NL] @ ''hi''"]
    parse_block_example
  by simp

lemma last_index_loop_append:
  "last_index_loop i (xs @ ys) d = last_index_loop (i + length xs) ys (last_index_loop i xs d)"
  by (induction xs arbitrary: i d) auto

lemma last_index_loop_notin:
  "k \<notin> source_file ` set ms \<Longrightarrow> last_index_loop i ms d k = d k"
  by (induction ms arbitrary: i d) auto

lemma last_index_loop_in:
  "k \<in> source_file ` set ms \<Longrightarrow> \<exists>j\<ge>i. last_index_loop i ms d k = Some j"
proof (induction ms arbitrary: i d)
  case Nil
  then show ?case by simp
next
  case (Cons m ms)
  show ?case
  proof (cases "k \<in> source_file ` set ms")
    case True
    from Cons.IH[OF True, of "Suc i" "d(source_file m \<mapsto> i)"]
    obtain j where "j \<ge> Suc i" "last_index_loop (Suc i) ms (d(source_file m \<mapsto> i)) k = Some j"
      by blast
    then show ?thesis by (intro exI[of _ j]) simp
  next
    case False
    with Cons.prems have k: "k = source_file m" by auto
    show ?thesis using False by (intro exI[of _ i]) (simp add: last_index_loop_notin k)
  qed
qed

lemma last_index_loop_split:
  "(last_index_loop i (pre @ m # post) d (source_file m) = Some (i + length pre))
     = (source_file m \<notin> source_file ` set post)"
proof (cases "source_file m \<in> source_file ` set post")
  case True
  from last_index_loop_in[OF True, of "Suc (i + length pre)" "(last_index_loop i pre d)(source_file m \<mapsto> i + length pre)"]
  obtain j where "j \<ge> Suc (i + length pre)"
    "last_index_loop (Suc (i + length pre)) post ((last_index_loop i pre d)(source_file m \<mapsto> i + length pre)) (source_file m) = Some j"
    by blast
  with True show ?thesis by (simp add: last_index_loop_append)
next
  case False
  then show ?thesis by (simp add: last_index_loop_append last_index_loop_notin)
qed

lemma length_DIVIDER: "length DIVIDER = 40"
  by (simp add: DIVIDER_def)

lemma without_trailing_divider_line_block:
  "without_trailing_divider_line (y @ [NL] @ DIVIDER @ [NL]) = y @ [NL]"
proof -
  have e: "py_endswith (y @ [NL] @ DIVIDER @ [NL]) ([NL] @ DIVIDER @ [NL])"
    by (simp add: py_endswith_def)
  have t: "take (length (y @ [NL] @ DIVIDER @ [NL]) - length (DIVIDER @ [NL])) (y @ [NL] @ DIVIDER @ [NL])
             = y @ [NL]"
    by simp
  show ?thesis
    unfolding without_trailing_divider_line_def using e t by simp
qed

lemma parsed_strip_trailing_divider:
  assumes "parse_block block_lines src start = Some m"
  shows "strip_trailing_divider (raw_block m) = without_trailing_divider_line (raw_block m)"
    and "raw_block m = strip_trailing_divider (raw_block m) @ DIVIDER @ [NL]"
proof -
  obtain y where y: "raw_block m = y @ [NL] @ DIVIDER @ [NL]"
    using parsed_block_shape[OF assms] by blast
  have s: "strip_trailing_divider (raw_block m) = y @ [NL]"
    unfolding y by (rule strip_trailing_divider_block)
  have w: "without_trailing_divider_line (raw_block m) = y @ [NL]"
    unfolding y by (rule without_trailing_divider_line_block)
  show "strip_trailing_divider (raw_block m) = without_trailing_divider_line (raw_block m)"
    using s w by simp
  show "raw_block m = strip_trailing_divider (raw_block m) @ DIVIDER @ [NL]"
    unfolding s using y by simp
qed

lemma output_block_head:
  assumes "\<And>pre m' post. m # ms = pre @ m' # post \<Longrightarrow>
             (d (source_file m') = Some (i + length pre)) = (source_file m' \<notin> source_file ` set post)"
    and "strip_trailing_divider (raw_block m) = without_trailing_divider_line (raw_block m)"
  shows "output_block d i m = hd (report_blocks (m # ms))"
  using assms(1)[of "[]" m ms] assms(2) by (simp add: output_block_def)

lemma total_loop_report:
  assumes "\<And>pre m post. ms = pre @ m # post \<Longrightarrow>
             (d (source_file m) = Some (i + length pre)) = (source_file m \<notin> source_file ` set post)"
    and "\<And>m. m \<in> set ms \<Longrightarrow>
             strip_trailing_divider (raw_block m) = without_trailing_divider_line (raw_block m)"
  shows "total_loop d i ms t = t + sum_list (map (\<lambda>b. length b + 1) (report_blocks ms))"
  using assms
proof (induction ms arbitrary: i t)
  case Nil
  then show ?case by simp
next
  case (Cons m ms)
  have s: "strip_trailing_divider (raw_block m) = without_trailing_divider_line (raw_block m)"
    by (rule Cons.prems(2)) simp
  have hd: "output_block d i m = hd (report_blocks (m # ms))"
    by (rule output_block_head[OF _ s]) (rule Cons.prems(1))
  have tl: "total_loop d (Suc i) ms t' = t' + sum_list (map (\<lambda>b. length b + 1) (report_blocks ms))" for t'
  proof (rule Cons.IH)
    fix pre m' post
    assume "ms = pre @ m' # post"
    then have "m # ms = (m # pre) @ m' # post" by simp
    from Cons.prems(1)[OF this] show "(d (source_file m') = Some (Suc i + length pre)) = (source_file m' \<notin> source_file ` set post)"
      by simp
  next
    fix m' assume "m' \<in> set ms"
    then show "strip_trailing_divider (raw_block m') = without_trailing_divider_line (raw_block m')"
      by (intro Cons.prems(2)) simp
  qed
  show ?case using hd by (simp add: tl)
qed

lemma body_text_append: "body_text (f @ g) = body_text f @ body_text g"
  by (simp add: body_text_def)

lemma write_loop_report:
  assumes "\<And>pre m post. ms = pre @ m # post \<Longrightarrow>
             (d (source_file m) = Some (i + length pre)) = (source_file m \<notin> source_file ` set post)"
    and "\<And>m j. m \<in> set ms \<Longrightarrow> py_endswith (output_block d j m) [NL]"
    and "\<And>m. m \<in> set ms \<Longrightarrow>
             strip_trailing_divider (raw_block m) = without_trailing_divider_line (raw_block m)"
  shows "body_text (write_loop d i ms cur f) = body_text f @ concat (map (\<lambda>b. b @ [NL]) (report_blocks ms))"
  using assms
proof (induction ms arbitrary: i cur f)
  case Nil
  then show ?case by simp
next
  case (Cons m ms)
  have s: "strip_trailing_divider (raw_block m) = without_trailing_divider_line (raw_block m)"
    by (rule Cons.prems(3)) simp
  have hd: "output_block d i m = hd (report_blocks (m # ms))"
    by (rule output_block_head[OF _ s]) (rule Cons.prems(1))
  have e: "py_endswith (output_block d i m) [NL]" by (rule Cons.prems(2)) simp
  have tl: "body_text (write_loop d (Suc i) ms cur' f') = body_text f' @ concat (map (\<lambda>b. b @ [NL]) (report_blocks ms))" for cur' f'
  proof (rule Cons.IH)
    fix pre m' post
    assume "ms = pre @ m' # post"
    then have "m # ms = (m # pre) @ m' # post" by simp
    from Cons.prems(1)[OF this] show "(d (source_file m') = Some (Suc i + length pre)) = (source_file m' \<notin> source_file ` set post)"
      by simp
  next
    fix m' j assume "m' \<in> set ms"
    then show "py_endswith (output_block d j m') [NL]" by (intro Cons.prems(2)) simp
  next
    fix m' assume "m' \<in> set ms"
    then show "strip_trailing_divider (raw_block m') = without_trailing_divider_line (raw_block m')"
      by (intro Cons.prems(3)) simp
  qed
  show ?case using hd e by (simp add: tl Let_def body_text_append) (simp add: body_text_def)
qed

lemma length_concat_blocks:
  "length (concat (map (\<lambda>b. b @ [NL]) bs)) = sum_list (map (\<lambda>b. length b + 1) bs)"
  by (induction bs) auto

lemma report_blocks_dividers:
  assumes "\<And>m. m \<in> set ms \<Longrightarrow> \<exists>y. raw_block m = y @ [NL] @ DIVIDER @ [NL]"
  shows "sum_list (map (\<lambda>b. length b + 1) (report_blocks ms))
           + (length DIVIDER + 1) * card (source_file ` set ms)
         = sum_list (map (\<lambda>m. length (raw_block m) + 1) ms)"
  using assms
proof (induction ms)
  case Nil
  then show ?case by simp
next
  case (Cons m ms)
  have ih: "sum_list (map (\<lambda>b. length b + 1) (report_blocks ms))
              + (length DIVIDER + 1) * card (source_file ` set ms)
            = sum_list (map (\<lambda>m. length (raw_block m) + 1) ms)"
    by (rule Cons.IH) (rule Cons.prems, simp)
  obtain y where y: "raw_block m = y @ [NL] @ DIVIDER @ [NL]"
    using Cons.prems[of m] by auto
  have w: "without_trailing_divider_line (raw_block m) = y @ [NL]"
    unfolding y by (rule without_trailing_divider_line_block)
  have img: "source_file ` set (m # ms) = insert (source_file m) (source_file ` set ms)"
    by simp
  show ?case
  proof (cases "source_file m \<in> source_file ` set ms")
    case True
    then have c: "card (source_file ` set (m # ms)) = card (source_file ` set ms)"
      unfolding img by (simp add: insert_absorb)
    show ?thesis using True ih unfolding c by simp
  next
    case False
    then have c: "card (source_file ` set (m # ms)) = Suc (card (source_file ` set ms))"
      unfolding img by simp
    have l: "length (raw_block m) = length (without_trailing_divider_line (raw_block m)) + (length DIVIDER + 1)"
      unfolding w unfolding y by simp
    show ?thesis using False ih l unfolding c by simp
  qed
qed

text \<open>
  C2: for matches that the parser produced, the total that
  \<open>compute_total_chars_for_output\<close> returns is the length of the block text that
  \<open>write_matched_grouped_by_file\<close> writes, banners excluded. Both are computed from the
  same blocks, \<^const>\<open>report_blocks\<close>: the divider line is removed from the match that is
  last of its file-group in the sequence and from no other, and each match adds one
  character for the blank line. What \<open>strip_trailing_divider\<close> takes from the block of a
  match is the divider and its newline, nothing else, so that the total is short of the
  lengths of all the \<open>raw_block\<close>s, one more for each, by one divider line for each file
  that has a match.
\<close>

theorem total_chars_equals_report_body:
  assumes "\<forall>m\<in>set matched. \<exists>block_lines src start. parse_block block_lines src start = Some m"
  shows "compute_total_chars_for_output matched
           = length (body_text (write_matched_grouped_by_file [] matched))
       \<and> compute_total_chars_for_output matched
           = sum_list (map (\<lambda>b. length b + 1) (report_blocks matched))
       \<and> body_text (write_matched_grouped_by_file [] matched)
           = concat (map (\<lambda>b. b @ [NL]) (report_blocks matched))
       \<and> (\<forall>m\<in>set matched. raw_block m = strip_trailing_divider (raw_block m) @ DIVIDER @ [NL])
       \<and> compute_total_chars_for_output matched
           + (length DIVIDER + 1) * card (source_file ` set matched)
           = sum_list (map (\<lambda>m. length (raw_block m) + 1) matched)"
proof -
  let ?d = "last_index_loop 0 matched Map.empty"
  have idx: "(?d (source_file m) = Some (0 + length pre)) = (source_file m \<notin> source_file ` set post)"
    if "matched = pre @ m # post" for pre m post
    unfolding that by (rule last_index_loop_split)
  have parsed: "\<exists>block_lines src start. parse_block block_lines src start = Some m"
    if "m \<in> set matched" for m
    using assms that by blast
  have nl: "py_endswith (output_block ?d j m) [NL]" if "m \<in> set matched" for m j
  proof -
    from parsed[OF that] obtain block_lines src start
      where "parse_block block_lines src start = Some m" by blast
    then show ?thesis by (rule parsed_output_block_newline)
  qed
  have st: "strip_trailing_divider (raw_block m) = without_trailing_divider_line (raw_block m)"
    if "m \<in> set matched" for m
  proof -
    from parsed[OF that] obtain block_lines src start
      where "parse_block block_lines src start = Some m" by blast
    then show ?thesis by (rule parsed_strip_trailing_divider(1))
  qed
  have dv: "raw_block m = strip_trailing_divider (raw_block m) @ DIVIDER @ [NL]"
    if "m \<in> set matched" for m
  proof -
    from parsed[OF that] obtain block_lines src start
      where "parse_block block_lines src start = Some m" by blast
    then show ?thesis by (rule parsed_strip_trailing_divider(2))
  qed
  have sh: "\<exists>y. raw_block m = y @ [NL] @ DIVIDER @ [NL]" if "m \<in> set matched" for m
  proof -
    from parsed[OF that] obtain block_lines src start
      where "parse_block block_lines src start = Some m" by blast
    then show ?thesis by (rule parsed_block_shape)
  qed
  have t: "compute_total_chars_for_output matched
             = sum_list (map (\<lambda>b. length b + 1) (report_blocks matched))"
    using total_loop_report[of matched ?d 0 0, OF idx st]
    by (simp add: compute_total_chars_for_output_def)
  have w: "body_text (write_matched_grouped_by_file [] matched)
             = concat (map (\<lambda>b. b @ [NL]) (report_blocks matched))"
    using write_loop_report[of matched ?d 0 None "[]", OF idx nl st]
    by (simp add: write_matched_grouped_by_file_def body_text_def)
  have l: "compute_total_chars_for_output matched
             = length (body_text (write_matched_grouped_by_file [] matched))"
    unfolding t w by (simp add: length_concat_blocks)
  have c: "compute_total_chars_for_output matched
             + (length DIVIDER + 1) * card (source_file ` set matched)
           = sum_list (map (\<lambda>m. length (raw_block m) + 1) matched)"
    unfolding t by (rule report_blocks_dividers) (rule sh)
  from l t w dv c show ?thesis by blast
qed

lemma parse_block_example_b:
  "parse_block [''[2024-01-02T11:00:00Z] eve'', ''yo''] ''b.txt'' 1 =
     Some \<lparr>timestamp = ''2024-01-02T11:00:00Z'', date = ''2024-01-02'', name = ''eve'',
           content = Some ''yo'', attachments = [],
           raw_block = ''[2024-01-02T11:00:00Z] eve'' @ [NL] @ ''yo'' @ [NL] @ DIVIDER @ [NL],
           source_file = ''b.txt'', start_line = 1\<rparr>"
  by code_simp

lemma parse_block_example_a4:
  "parse_block [''[2024-01-02T12:00:00Z] bob'', ''ok''] ''a.txt'' 4 =
     Some \<lparr>timestamp = ''2024-01-02T12:00:00Z'', date = ''2024-01-02'', name = ''bob'',
           content = Some ''ok'', attachments = [],
           raw_block = ''[2024-01-02T12:00:00Z] bob'' @ [NL] @ ''ok'' @ [NL] @ DIVIDER @ [NL],
           source_file = ''a.txt'', start_line = 4\<rparr>"
  by code_simp

text \<open>
  Three matches in timestamp order, the first and the third of \<open>a.txt\<close> and the second of
  \<open>b.txt\<close>: the first keeps its divider, the other two are the last of their files and
  lose it. The total is \<open>71 + 1 + 30 + 1 + 30 + 1\<close>.
\<close>

theorem total_chars_equals_report_body_witness:
  "\<exists>m1 m2 m3.
       parse_block [''[2024-01-02T10:00:00Z] bob'', ''hi''] ''a.txt'' 1 = Some m1
     \<and> parse_block [''[2024-01-02T11:00:00Z] eve'', ''yo''] ''b.txt'' 1 = Some m2
     \<and> parse_block [''[2024-01-02T12:00:00Z] bob'', ''ok''] ''a.txt'' 4 = Some m3
     \<and> compute_total_chars_for_output [m1, m2, m3] = 134
     \<and> length (body_text (write_matched_grouped_by_file [] [m1, m2, m3])) = 134
     \<and> body_text (write_matched_grouped_by_file [] [m1, m2, m3])
         = ''[2024-01-02T10:00:00Z] bob'' @ [NL] @ ''hi'' @ [NL] @ DIVIDER @ [NL] @ [NL]
           @ ''[2024-01-02T11:00:00Z] eve'' @ [NL] @ ''yo'' @ [NL] @ [NL]
           @ ''[2024-01-02T12:00:00Z] bob'' @ [NL] @ ''ok'' @ [NL] @ [NL]
     \<and> strip_trailing_divider (raw_block m2) = ''[2024-01-02T11:00:00Z] eve'' @ [NL] @ ''yo'' @ [NL]
     \<and> strip_trailing_divider (raw_block m3) = ''[2024-01-02T12:00:00Z] bob'' @ [NL] @ ''ok'' @ [NL]
     \<and> length (raw_block m1) + 1 + (length (raw_block m2) + 1) + (length (raw_block m3) + 1)
         = 134 + 41 * 2"
proof -
  define m1 where "m1 = the (parse_block [''[2024-01-02T10:00:00Z] bob'', ''hi''] ''a.txt'' 1)"
  define m2 where "m2 = the (parse_block [''[2024-01-02T11:00:00Z] eve'', ''yo''] ''b.txt'' 1)"
  define m3 where "m3 = the (parse_block [''[2024-01-02T12:00:00Z] bob'', ''ok''] ''a.txt'' 4)"
  have p1: "parse_block [''[2024-01-02T10:00:00Z] bob'', ''hi''] ''a.txt'' 1 = Some m1"
    unfolding m1_def by (simp add: parse_block_example)
  have p2: "parse_block [''[2024-01-02T11:00:00Z] eve'', ''yo''] ''b.txt'' 1 = Some m2"
    unfolding m2_def by (simp add: parse_block_example_b)
  have p3: "parse_block [''[2024-01-02T12:00:00Z] bob'', ''ok''] ''a.txt'' 4 = Some m3"
    unfolding m3_def by (simp add: parse_block_example_a4)
  have sf: "source_file m1 = ''a.txt''" "source_file m2 = ''b.txt''" "source_file m3 = ''a.txt''"
    unfolding m1_def m2_def m3_def
    by (simp_all add: parse_block_example parse_block_example_b parse_block_example_a4)
  have r1: "raw_block m1 = ''[2024-01-02T10:00:00Z] bob'' @ [NL] @ ''hi'' @ [NL] @ DIVIDER @ [NL]"
    unfolding m1_def by (simp add: parse_block_example)
  have r2: "raw_block m2 = (''[2024-01-02T11:00:00Z] eve'' @ [NL] @ ''yo'') @ [NL] @ DIVIDER @ [NL]"
    unfolding m2_def by (simp add: parse_block_example_b)
  have r3: "raw_block m3 = (''[2024-01-02T12:00:00Z] bob'' @ [NL] @ ''ok'') @ [NL] @ DIVIDER @ [NL]"
    unfolding m3_def by (simp add: parse_block_example_a4)
  have w2: "without_trailing_divider_line (raw_block m2) = ''[2024-01-02T11:00:00Z] eve'' @ [NL] @ ''yo'' @ [NL]"
    unfolding r2 without_trailing_divider_line_block by simp
  have w3: "without_trailing_divider_line (raw_block m3) = ''[2024-01-02T12:00:00Z] bob'' @ [NL] @ ''ok'' @ [NL]"
    unfolding r3 without_trailing_divider_line_block by simp
  have rb: "report_blocks [m1, m2, m3]
              = [''[2024-01-02T10:00:00Z] bob'' @ [NL] @ ''hi'' @ [NL] @ DIVIDER @ [NL],
                 ''[2024-01-02T11:00:00Z] eve'' @ [NL] @ ''yo'' @ [NL],
                 ''[2024-01-02T12:00:00Z] bob'' @ [NL] @ ''ok'' @ [NL]]"
    by (simp add: sf w2 w3 r1)
  have cd: "card (source_file ` set [m1, m2, m3]) = 2"
    by (simp add: sf card_insert_if)
  have h: "\<forall>m\<in>set [m1, m2, m3]. \<exists>block_lines src start. parse_block block_lines src start = Some m"
    using p1 p2 p3 by auto
  from total_chars_equals_report_body [OF h]
  have a: "compute_total_chars_for_output [m1, m2, m3]
             = length (body_text (write_matched_grouped_by_file [] [m1, m2, m3]))"
    and b: "compute_total_chars_for_output [m1, m2, m3]
             = sum_list (map (\<lambda>b. length b + 1) (report_blocks [m1, m2, m3]))"
    and c: "body_text (write_matched_grouped_by_file [] [m1, m2, m3])
             = concat (map (\<lambda>b. b @ [NL]) (report_blocks [m1, m2, m3]))"
    and e: "\<forall>m\<in>set [m1, m2, m3]. raw_block m = strip_trailing_divider (raw_block m) @ DIVIDER @ [NL]"
    and d: "compute_total_chars_for_output [m1, m2, m3]
             + (length DIVIDER + 1) * card (source_file ` set [m1, m2, m3])
             = sum_list (map (\<lambda>m. length (raw_block m) + 1) [m1, m2, m3])"
    by blast+
  have e2: "(''[2024-01-02T11:00:00Z] eve'' @ [NL] @ ''yo'' @ [NL]) @ DIVIDER @ [NL]
              = strip_trailing_divider (raw_block m2) @ DIVIDER @ [NL]"
    using e r2 by simp
  have s2: "strip_trailing_divider (raw_block m2) = ''[2024-01-02T11:00:00Z] eve'' @ [NL] @ ''yo'' @ [NL]"
    using e2 unfolding append_same_eq by simp
  have e3: "(''[2024-01-02T12:00:00Z] bob'' @ [NL] @ ''ok'' @ [NL]) @ DIVIDER @ [NL]
              = strip_trailing_divider (raw_block m3) @ DIVIDER @ [NL]"
    using e r3 by simp
  have s3: "strip_trailing_divider (raw_block m3) = ''[2024-01-02T12:00:00Z] bob'' @ [NL] @ ''ok'' @ [NL]"
    using e3 unfolding append_same_eq by simp
  have t: "compute_total_chars_for_output [m1, m2, m3] = 134"
    unfolding b rb by (simp add: length_DIVIDER)
  have l: "length (body_text (write_matched_grouped_by_file [] [m1, m2, m3])) = 134"
    using a t by simp
  have bt: "body_text (write_matched_grouped_by_file [] [m1, m2, m3])
         = ''[2024-01-02T10:00:00Z] bob'' @ [NL] @ ''hi'' @ [NL] @ DIVIDER @ [NL] @ [NL]
           @ ''[2024-01-02T11:00:00Z] eve'' @ [NL] @ ''yo'' @ [NL] @ [NL]
           @ ''[2024-01-02T12:00:00Z] bob'' @ [NL] @ ''ok'' @ [NL] @ [NL]"
    unfolding c rb by simp
  have s: "length (raw_block m1) + 1 + (length (raw_block m2) + 1) + (length (raw_block m3) + 1)
             = 134 + 41 * 2"
    using d unfolding t cd by (simp add: length_DIVIDER)
  from p1 p2 p3 t l bt s2 s3 s show ?thesis by blast
qed

text \<open>
  The hypothesis is needed: for messages built by hand, with a \<open>raw_block\<close> that does not
  end with a newline, the writer adds a newline that the total does not count.
\<close>

lemma total_chars_unparsed_example:
  "compute_total_chars_for_output
     [\<lparr>timestamp = ''t1'', date = ''NO_DATE'', name = ''n'', content = None, attachments = [],
       raw_block = ''x'', source_file = ''a.txt'', start_line = 1\<rparr>,
      \<lparr>timestamp = ''t2'', date = ''NO_DATE'', name = ''n'', content = None, attachments = [],
       raw_block = ''y'', source_file = ''a.txt'', start_line = 3\<rparr>] = 5
   \<and> length (body_text (write_matched_grouped_by_file []
     [\<lparr>timestamp = ''t1'', date = ''NO_DATE'', name = ''n'', content = None, attachments = [],
       raw_block = ''x'', source_file = ''a.txt'', start_line = 1\<rparr>,
      \<lparr>timestamp = ''t2'', date = ''NO_DATE'', name = ''n'', content = None, attachments = [],
       raw_block = ''y'', source_file = ''a.txt'', start_line = 3\<rparr>])) = 6"
  by code_simp

section \<open>Filters\<close>

lemma lower_char_idem: "lower_char (lower_char c) = lower_char c"
proof -
  have lt: "code_point c < 256" by (simp add: code_point_def)
  show ?thesis
    using lt by (auto simp: lower_char_def Let_def code_point_def)
qed

lemma py_lower_idem: "py_lower (py_lower s) = py_lower s"
  by (simp add: py_lower_def lower_char_idem)

lemma attachment_ext_lower: "py_lower (attachment_ext f) = attachment_ext f"
  by (simp add: attachment_ext_def py_lower_idem) (simp add: py_lower_def)

lemma scan_lines_ext:
  "(\<forall>a\<in>set atts. ext a = attachment_ext (filename a)) \<Longrightarrow>
     \<forall>a\<in>set (snd (scan_lines ls cl atts)). ext a = attachment_ext (filename a)"
  by (induction ls cl atts rule: scan_lines.induct) (auto simp: Let_def mk_attachment_def)

lemma parse_block_ext:
  assumes "parse_block block_lines src start = Some m" "a \<in> set (attachments m)"
  shows "ext a = attachment_ext (filename a)"
proof -
  from assms(1) have "attachments m = snd (scan_lines (tl (pop_blank_lines block_lines)) [] [])"
    by (auto simp: parse_block_def Let_def split: list.splits option.splits if_splits prod.splits)
  with scan_lines_ext[of "[]" "tl (pop_blank_lines block_lines)" "[]"] assms(2) show ?thesis by simp
qed

text \<open>
  C3: a message matches exactly when every filter that is not \<open>None\<close> holds of it: the
  date is equal, the names are equal in lower case, the pattern is found in the content
  (the empty string when there is none), the exclude string in lower case is not in the
  content in lower case, having attachments is as asked, and some attachment has the
  filter value, in lower case with leading dots removed, as its \<open>ext\<close>. The \<open>ext\<close> of an
  attachment of a parsed message is the extension of its file name in lower case.
\<close>

theorem matches_filters_conjunction:
  "(matches_filters msg filters \<longleftrightarrow>
       (\<forall>d. date_filter filters = Some d \<longrightarrow> date msg = d)
     \<and> (\<forall>n. name_filter filters = Some n \<longrightarrow> py_lower (name msg) = py_lower n)
     \<and> (\<forall>p. contains_pat filters = Some p \<longrightarrow>
            re_search p (case content msg of None \<Rightarrow> [] | Some c \<Rightarrow> c))
     \<and> (\<forall>e. exclude_filter filters = Some e \<longrightarrow>
            \<not> py_contains (py_lower (case content msg of None \<Rightarrow> [] | Some c \<Rightarrow> c)) (py_lower e))
     \<and> (\<forall>b. has_att_filter filters = Some b \<longrightarrow> (attachments msg \<noteq> []) = b)
     \<and> (\<forall>x. att_ext_filter filters = Some x \<longrightarrow>
            (\<exists>a\<in>set (attachments msg). ext a = lstrip_chars {CHR ''.''} (py_lower x))))
   \<and> (parse_block block_lines src start = Some msg \<longrightarrow>
        (\<forall>a\<in>set (attachments msg). ext a = attachment_ext (filename a) \<and> py_lower (ext a) = ext a))"
proof (intro conjI impI ballI)
  show "matches_filters msg filters \<longleftrightarrow>
       (\<forall>d. date_filter filters = Some d \<longrightarrow> date msg = d)
     \<and> (\<forall>n. name_filter filters = Some n \<longrightarrow> py_lower (name msg) = py_lower n)
     \<and> (\<forall>p. contains_pat filters = Some p \<longrightarrow>
            re_search p (case content msg of None \<Rightarrow> [] | Some c \<Rightarrow> c))
     \<and> (\<forall>e. exclude_filter filters = Some e \<longrightarrow>
            \<not> py_contains (py_lower (case content msg of None \<Rightarrow> [] | Some c \<Rightarrow> c)) (py_lower e))
     \<and> (\<forall>b. has_att_filter filters = Some b \<longrightarrow> (attachments msg \<noteq> []) = b)
     \<and> (\<forall>x. att_ext_filter filters = Some x \<longrightarrow>
            (\<exists>a\<in>set (attachments msg). ext a = lstrip_chars {CHR ''.''} (py_lower x)))"
    by (cases "date_filter filters"; cases "name_filter filters"; cases "contains_pat filters";
        cases "exclude_filter filters"; cases "has_att_filter filters"; cases "att_ext_filter filters")
       (auto simp: matches_filters_def Let_def list_ex_iff)
next
  fix a
  assume p: "parse_block block_lines src start = Some msg" and a: "a \<in> set (attachments msg)"
  show "ext a = attachment_ext (filename a)" by (rule parse_block_ext[OF p a])
  then show "py_lower (ext a) = ext a" by (simp add: attachment_ext_lower)
qed

lemma parse_block_example3:
  "parse_block [''[2024-01-02T10:00:00Z] Bob'', ''a cat sat'', ''Attachment: pic.PNG'',
                ''Proxy: http://x/pic.PNG''] ''a.txt'' 1 =
     Some \<lparr>timestamp = ''2024-01-02T10:00:00Z'', date = ''2024-01-02'', name = ''Bob'',
           content = Some ''a cat sat'',
           attachments = [\<lparr>filename = ''pic.PNG'', ext = ''png'', proxy_url = ''http://x/pic.PNG''\<rparr>],
           raw_block = ''[2024-01-02T10:00:00Z] Bob'' @ [NL] @ ''a cat sat'' @ [NL]
                       @ ''Attachment: pic.PNG'' @ [NL] @ ''Proxy: http://x/pic.PNG'' @ [NL]
                       @ DIVIDER @ [NL],
           source_file = ''a.txt'', start_line = 1\<rparr>"
  by code_simp

lemma matches_example:
  "matches_filters
     \<lparr>timestamp = ''2024-01-02T10:00:00Z'', date = ''2024-01-02'', name = ''Bob'',
      content = Some ''a cat sat'',
      attachments = [\<lparr>filename = ''pic.PNG'', ext = ''png'', proxy_url = ''http://x/pic.PNG''\<rparr>],
      raw_block = ''[2024-01-02T10:00:00Z] Bob'' @ [NL] @ ''a cat sat'' @ [NL]
                  @ ''Attachment: pic.PNG'' @ [NL] @ ''Proxy: http://x/pic.PNG'' @ [NL]
                  @ DIVIDER @ [NL],
      source_file = ''a.txt'', start_line = 1\<rparr>
     \<lparr>date_filter = Some ''2024-01-02'', name_filter = Some ''BOB'',
      contains_pat = Some (snd (compile_contains_pattern [CHR 0x22, CHR ''c'', CHR ''a'', CHR ''t'', CHR 0x22])),
      exclude_filter = Some ''dog'', has_att_filter = Some True, att_ext_filter = Some ''.PNG''\<rparr>"
  by code_simp

theorem matches_filters_conjunction_witness:
  "\<exists>m. parse_block [''[2024-01-02T10:00:00Z] Bob'', ''a cat sat'', ''Attachment: pic.PNG'',
                     ''Proxy: http://x/pic.PNG''] ''a.txt'' 1 = Some m
       \<and> matches_filters m
            \<lparr>date_filter = Some ''2024-01-02'', name_filter = Some ''BOB'',
             contains_pat = Some (snd (compile_contains_pattern [CHR 0x22, CHR ''c'', CHR ''a'', CHR ''t'', CHR 0x22])),
             exclude_filter = Some ''dog'', has_att_filter = Some True, att_ext_filter = Some ''.PNG''\<rparr>
       \<and> date m = ''2024-01-02''
       \<and> py_lower (name m) = py_lower ''BOB''
       \<and> (\<exists>a\<in>set (attachments m). ext a = lstrip_chars {CHR ''.''} (py_lower ''.PNG''))
       \<and> (\<forall>a\<in>set (attachments m). py_lower (ext a) = ext a)"
  using matches_filters_conjunction [THEN conjunct1, THEN iffD1, OF matches_example]
    matches_filters_conjunction [THEN conjunct2, THEN mp, OF parse_block_example3]
    parse_block_example3 matches_example
  by (simp add: attachment_ext_lower)

subsection \<open>The content pattern\<close>

lemma match_at_literals:
  "match_at (map Lit tok @ p) prev s \<longleftrightarrow>
     (\<exists>mid rest. s = mid @ rest \<and> py_lower mid = py_lower tok
        \<and> match_at p (if mid = [] then prev else Some (last mid)) rest)"
proof (induction tok arbitrary: prev s)
  case Nil
  then show ?case by (simp add: py_lower_def)
next
  case (Cons x tok)
  show ?case
  proof (cases s)
    case Nil
    then show ?thesis by (simp add: py_lower_def)
  next
    case (Cons c cs)
    have "match_at (map Lit (x # tok) @ p) prev s
            \<longleftrightarrow> lower_char c = lower_char x \<and> match_at (map Lit tok @ p) (Some c) cs"
      by (simp add: Cons)
    also have "\<dots> \<longleftrightarrow> lower_char c = lower_char x \<and>
        (\<exists>mid rest. cs = mid @ rest \<and> py_lower mid = py_lower tok
           \<and> match_at p (if mid = [] then Some c else Some (last mid)) rest)"
      by (simp only: Cons.IH)
    also have "\<dots> \<longleftrightarrow> (\<exists>mid rest. s = mid @ rest \<and> py_lower mid = py_lower (x # tok)
           \<and> match_at p (if mid = [] then prev else Some (last mid)) rest)"
      (is "?L \<longleftrightarrow> ?R")
    proof
      assume ?L
      then obtain mid rest where m: "lower_char c = lower_char x" "cs = mid @ rest"
        "py_lower mid = py_lower tok" "match_at p (if mid = [] then Some c else Some (last mid)) rest"
        by blast
      have "s = (c # mid) @ rest \<and> py_lower (c # mid) = py_lower (x # tok)
           \<and> match_at p (if c # mid = [] then prev else Some (last (c # mid))) rest"
        using m by (auto simp: Cons py_lower_def split: if_splits)
      then show ?R by blast
    next
      assume ?R
      then obtain mid rest where m: "s = mid @ rest" "py_lower mid = py_lower (x # tok)"
        "match_at p (if mid = [] then prev else Some (last mid)) rest" by blast
      from m(2) obtain c' mid' where mid: "mid = c' # mid'" by (cases mid) (auto simp: py_lower_def)
      with m Cons have "c' = c" "cs = mid' @ rest" "lower_char c = lower_char x" "py_lower mid' = py_lower tok"
        by (auto simp: py_lower_def)
      moreover have "match_at p (if mid' = [] then Some c else Some (last mid')) rest"
        using m(3) mid \<open>c' = c\<close> by (simp split: if_splits)
      ultimately show ?L by blast
    qed
    finally show ?thesis .
  qed
qed

lemma search_from_iff:
  "search_from p prev s \<longleftrightarrow>
     (\<exists>pre rest. s = pre @ rest \<and> match_at p (if pre = [] then prev else Some (last pre)) rest)"
proof (induction s arbitrary: prev)
  case Nil
  then show ?case by simp
next
  case (Cons c cs)
  show ?case (is "?L \<longleftrightarrow> ?R")
  proof
    assume ?L
    then consider "match_at p prev (c # cs)" | "search_from p (Some c) cs" by auto
    then show ?R
    proof cases
      case 1
      then have "c # cs = [] @ (c # cs) \<and> match_at p (if [] = ([]::string) then prev else Some (last [])) (c # cs)"
        by simp
      then show ?thesis by blast
    next
      case 2
      then obtain pre rest where "cs = pre @ rest" "match_at p (if pre = [] then Some c else Some (last pre)) rest"
        unfolding Cons.IH by blast
      then have "c # cs = (c # pre) @ rest
           \<and> match_at p (if c # pre = [] then prev else Some (last (c # pre))) rest"
        by (auto split: if_splits)
      then show ?thesis by blast
    qed
  next
    assume ?R
    then obtain pre rest where m: "c # cs = pre @ rest" "match_at p (if pre = [] then prev else Some (last pre)) rest"
      by blast
    show ?L
    proof (cases pre)
      case Nil
      with m have "match_at p prev (c # cs)" by auto
      then show ?thesis by simp
    next
      case (Cons c' pre')
      with m have "cs = pre' @ rest" "match_at p (if pre' = [] then Some c else Some (last pre')) rest"
        by (auto split: if_splits)
      then have "search_from p (Some c) cs" unfolding Cons.IH by blast
      then show ?thesis by simp
    qed
  qed
qed

lemma not_before_word_iff:
  "match_at [NotBeforeWord] prev post \<longleftrightarrow> (post = [] \<or> \<not> is_word_char (hd post))"
  by (cases post) auto

lemma re_search_substring:
  "re_search (re_escape tok) hay \<longleftrightarrow>
     (\<exists>pre mid post. hay = pre @ mid @ post \<and> py_lower mid = py_lower tok)"
  using match_at_literals[of tok "[]"]
  by (simp add: re_search_def re_escape_def search_from_iff) blast

lemma re_search_exact_token:
  "re_search ([NotAfterWord] @ re_escape tok @ [NotBeforeWord]) hay \<longleftrightarrow>
     (\<exists>pre mid post. hay = pre @ mid @ post \<and> py_lower mid = py_lower tok
        \<and> (pre = [] \<or> \<not> is_word_char (last pre))
        \<and> (post = [] \<or> \<not> is_word_char (hd post)))"
  (is "?L \<longleftrightarrow> ?R")
proof
  assume ?L
  then obtain pre rest where a: "hay = pre @ rest"
    "match_at (NotAfterWord # map Lit tok @ [NotBeforeWord]) (if pre = [] then None else Some (last pre)) rest"
    by (auto simp: re_search_def re_escape_def search_from_iff)
  from a(2) have b: "pre = [] \<or> \<not> is_word_char (last pre)"
    and c: "match_at (map Lit tok @ [NotBeforeWord]) (if pre = [] then None else Some (last pre)) rest"
    by (auto split: if_splits)
  from c obtain mid post where d: "rest = mid @ post" "py_lower mid = py_lower tok"
    "post = [] \<or> \<not> is_word_char (hd post)"
    unfolding match_at_literals not_before_word_iff by blast
  from a(1) b d show ?R by blast
next
  assume ?R
  then obtain pre mid post where a: "hay = pre @ mid @ post" "py_lower mid = py_lower tok"
    "pre = [] \<or> \<not> is_word_char (last pre)" "post = [] \<or> \<not> is_word_char (hd post)"
    by blast
  have c: "match_at (map Lit tok @ [NotBeforeWord]) (if pre = [] then None else Some (last pre)) (mid @ post)"
    unfolding match_at_literals not_before_word_iff using a(2,4) by blast
  have "match_at (NotAfterWord # map Lit tok @ [NotBeforeWord]) (if pre = [] then None else Some (last pre)) (mid @ post)"
    using a(3) c by (auto split: if_splits)
  with a(1) have "\<exists>pre' rest. hay = pre' @ rest
      \<and> match_at (NotAfterWord # map Lit tok @ [NotBeforeWord]) (if pre' = [] then None else Some (last pre')) rest"
    by blast
  then show ?L
    by (simp only: re_search_def re_escape_def search_from_iff append_Cons append_Nil)
qed

text \<open>
  C4: with \<open>s\<close> the input without the white space around it, an input in double quotes
  compiles to a matcher of the text between the quotes that is found where the text
  stands, compared in lower case, with no word character just before and none just after;
  any other input compiles to a matcher that is found where \<open>s\<close> itself stands, compared in
  lower case, character by character. The exact token \<open>"cat"\<close> is found in \<open>a cat sat\<close>
  and not in \<open>category\<close> or \<open>concatenate\<close>; the substring \<open>cat\<close> is found in all three.
\<close>

theorem compile_contains_pattern_modes:
  "fst (compile_contains_pattern user_input) = user_input
   \<and> (if 2 \<le> length (py_strip user_input) \<and> hd (py_strip user_input) = DQUOTE
          \<and> last (py_strip user_input) = DQUOTE
       then re_search (snd (compile_contains_pattern user_input)) hay \<longleftrightarrow>
              (\<exists>pre mid post. hay = pre @ mid @ post
                 \<and> py_lower mid = py_lower (butlast (tl (py_strip user_input)))
                 \<and> (pre = [] \<or> \<not> is_word_char (last pre))
                 \<and> (post = [] \<or> \<not> is_word_char (hd post)))
       else re_search (snd (compile_contains_pattern user_input)) hay \<longleftrightarrow>
              (\<exists>pre mid post. hay = pre @ mid @ post \<and> py_lower mid = py_lower (py_strip user_input)))
   \<and> re_search (snd (compile_contains_pattern (DQUOTE # ''cat'' @ [DQUOTE]))) ''a cat sat''
   \<and> \<not> re_search (snd (compile_contains_pattern (DQUOTE # ''cat'' @ [DQUOTE]))) ''category''
   \<and> \<not> re_search (snd (compile_contains_pattern (DQUOTE # ''cat'' @ [DQUOTE]))) ''concatenate''
   \<and> re_search (snd (compile_contains_pattern ''cat'')) ''a cat sat''
   \<and> re_search (snd (compile_contains_pattern ''cat'')) ''category''
   \<and> re_search (snd (compile_contains_pattern ''cat'')) ''concatenate''"
proof -
  have a: "fst (compile_contains_pattern user_input) = user_input"
    by (simp add: compile_contains_pattern_def Let_def)
  have b: "re_search (snd (compile_contains_pattern user_input)) hay \<longleftrightarrow>
              (\<exists>pre mid post. hay = pre @ mid @ post
                 \<and> py_lower mid = py_lower (butlast (tl (py_strip user_input)))
                 \<and> (pre = [] \<or> \<not> is_word_char (last pre))
                 \<and> (post = [] \<or> \<not> is_word_char (hd post)))"
    if "2 \<le> length (py_strip user_input) \<and> hd (py_strip user_input) = DQUOTE
          \<and> last (py_strip user_input) = DQUOTE"
  proof -
    from that have "snd (compile_contains_pattern user_input)
        = [NotAfterWord] @ re_escape (butlast (tl (py_strip user_input))) @ [NotBeforeWord]"
      by (simp add: compile_contains_pattern_def Let_def)
    then show ?thesis by (simp only: re_search_exact_token)
  qed
  have c: "re_search (snd (compile_contains_pattern user_input)) hay \<longleftrightarrow>
              (\<exists>pre mid post. hay = pre @ mid @ post \<and> py_lower mid = py_lower (py_strip user_input))"
    if "\<not> (2 \<le> length (py_strip user_input) \<and> hd (py_strip user_input) = DQUOTE
          \<and> last (py_strip user_input) = DQUOTE)"
  proof -
    from that have "snd (compile_contains_pattern user_input) = re_escape (py_strip user_input)"
      by (auto simp: compile_contains_pattern_def Let_def)
    then show ?thesis by (simp only: re_search_substring)
  qed
  have e1: "re_search (snd (compile_contains_pattern (DQUOTE # ''cat'' @ [DQUOTE]))) ''a cat sat''"
    by code_simp
  have e2: "\<not> re_search (snd (compile_contains_pattern (DQUOTE # ''cat'' @ [DQUOTE]))) ''category''"
    by code_simp
  have e3: "\<not> re_search (snd (compile_contains_pattern (DQUOTE # ''cat'' @ [DQUOTE]))) ''concatenate''"
    by code_simp
  have e4: "re_search (snd (compile_contains_pattern ''cat'')) ''a cat sat''"
    by code_simp
  have e5: "re_search (snd (compile_contains_pattern ''cat'')) ''category''"
    by code_simp
  have e6: "re_search (snd (compile_contains_pattern ''cat'')) ''concatenate''"
    by code_simp
  from a b c e1 e2 e3 e4 e5 e6 show ?thesis by presburger
qed

theorem compile_contains_pattern_modes_witness:
  "re_search (snd (compile_contains_pattern ('' '' @ DQUOTE # ''Cat.'' @ [DQUOTE]))) ''a CAT. sat''
   \<and> \<not> re_search (snd (compile_contains_pattern ''a.c'')) ''abc''"
proof -
  let ?inp = "'' '' @ DQUOTE # ''Cat.'' @ [DQUOTE]"
  let ?hay = "''a CAT. sat''"
  have cond: "2 \<le> length (py_strip ?inp) \<and> hd (py_strip ?inp) = DQUOTE \<and> last (py_strip ?inp) = DQUOTE"
    by code_simp
  have tok: "py_lower ''CAT.'' = py_lower (butlast (tl (py_strip ?inp)))"
    by code_simp
  have sp: "\<not> is_word_char (last ''a '')" "\<not> is_word_char (hd '' sat'')"
    by code_simp+
  have "?hay = ''a '' @ ''CAT.'' @ '' sat''" by simp
  with tok sp have ex: "\<exists>pre mid post. ?hay = pre @ mid @ post
          \<and> py_lower mid = py_lower (butlast (tl (py_strip ?inp)))
          \<and> (pre = [] \<or> \<not> is_word_char (last pre))
          \<and> (post = [] \<or> \<not> is_word_char (hd post))"
    by blast
  have 1: "re_search (snd (compile_contains_pattern ?inp)) ?hay"
    using compile_contains_pattern_modes [of ?inp ?hay] cond ex by presburger
  have ncond: "\<not> (2 \<le> length (py_strip ''a.c'') \<and> hd (py_strip ''a.c'') = DQUOTE
                    \<and> last (py_strip ''a.c'') = DQUOTE)"
    by code_simp
  have 2: "re_search (snd (compile_contains_pattern ''a.c'')) ''abc''
             \<longleftrightarrow> (\<exists>pre mid post. ''abc'' = pre @ mid @ post \<and> py_lower mid = py_lower (py_strip ''a.c''))"
    using compile_contains_pattern_modes [of "''a.c''" "''abc''"] ncond by presburger
  have "\<not> re_search (snd (compile_contains_pattern ''a.c'')) ''abc''"
    by code_simp
  with 1 2 show ?thesis by blast
qed

section \<open>The block tokenizer\<close>

lemma split_on_divider_nonempty: "split_on_divider xs \<noteq> []"
  by (induction xs) (auto split: list.splits)

lemma split_on_divider_append_divider:
  "\<forall>il\<in>set g. py_strip (snd il) \<noteq> DIVIDER \<Longrightarrow> py_strip (snd d) = DIVIDER \<Longrightarrow>
     split_on_divider (g @ d # r) = g # split_on_divider r"
  by (induction g) auto

lemma split_on_divider_no_divider:
  "\<forall>il\<in>set g. py_strip (snd il) \<noteq> DIVIDER \<Longrightarrow> split_on_divider g = [g]"
  by (induction g) auto

lemma first_nonblank_snoc:
  "first_nonblank (g @ [il]) =
     (case first_nonblank g of
        Some s \<Rightarrow> Some s
      | None \<Rightarrow> if py_strip (snd il) \<noteq> [] then Some (fst il) else None)"
  by (auto simp: first_nonblank_def split: list.splits)

lemma first_nonblank_Nil: "first_nonblank [] = None"
  by (simp add: first_nonblank_def)

lemma first_nonblank_Some_nonempty: "first_nonblank g = Some s \<Longrightarrow> g \<noteq> []"
  by (auto simp: first_nonblank_def)

lemma map_filter_Cons:
  "List.map_filter f (x # xs) = (case f x of None \<Rightarrow> List.map_filter f xs | Some y \<Rightarrow> y # List.map_filter f xs)"
  by (simp add: List.map_filter_def split: option.splits)

lemma flush_block_messages:
  assumes "current_block st = map snd g" "current_start_line st = first_nonblank g"
  shows "messages (flush_block fname st)
           = messages st @ List.map_filter (\<lambda>(s, b). parse_block b fname s) (List.map_filter candidate [g])"
  using assms first_nonblank_Some_nonempty[of g]
  by (auto simp: flush_block_def candidate_def map_filter_Cons List.map_filter_simps
           split: option.splits)

lemma flush_block_state:
  "current_block (flush_block fname st) = [] \<and> current_start_line (flush_block fname st) = None"
  by (simp add: flush_block_def)

lemma tokenize_lines_spec:
  assumes "current_block st = map snd g" "current_start_line st = first_nonblank g"
    "\<forall>il\<in>set g. py_strip (snd il) \<noteq> DIVIDER"
  shows "messages (flush_block fname (tokenize_lines fname idx ls st))
           = messages st @ List.map_filter (\<lambda>(s, b). parse_block b fname s)
               (List.map_filter candidate (split_on_divider (g @ number_lines idx ls)))"
  using assms
proof (induction ls arbitrary: idx st g)
  case Nil
  then show ?case
    by (simp add: split_on_divider_no_divider flush_block_messages)
next
  case (Cons l ls)
  show ?case
  proof (cases "py_strip l = DIVIDER")
    case True
    let ?st = "flush_block fname st"
    have sp: "split_on_divider (g @ number_lines idx (l # ls)) = g # split_on_divider ([] @ number_lines (idx + 1) ls)"
      using split_on_divider_append_divider[of g "(idx, l)" "number_lines (idx + 1) ls"] Cons.prems(3) True
      by simp
    have ih: "messages (flush_block fname (tokenize_lines fname (idx + 1) ls ?st))
           = messages ?st @ List.map_filter (\<lambda>(s, b). parse_block b fname s)
               (List.map_filter candidate (split_on_divider ([] @ number_lines (idx + 1) ls)))"
      by (rule Cons.IH) (simp_all add: flush_block_state first_nonblank_Nil)
    have fl: "messages ?st = messages st @ List.map_filter (\<lambda>(s, b). parse_block b fname s) (List.map_filter candidate [g])"
      by (rule flush_block_messages[OF Cons.prems(1,2)])
    show ?thesis
      unfolding sp using True ih fl
      by (simp add: map_filter_Cons List.map_filter_simps split: option.splits)
  next
    case False
    let ?st = "st\<lparr>current_start_line :=
                    (if current_start_line st = None \<and> py_strip l \<noteq> [] then Some idx
                     else current_start_line st),
                 current_block := current_block st @ [l]\<rparr>"
    have ih: "messages (flush_block fname (tokenize_lines fname (idx + 1) ls ?st))
           = messages ?st @ List.map_filter (\<lambda>(s, b). parse_block b fname s)
               (List.map_filter candidate (split_on_divider ((g @ [(idx, l)]) @ number_lines (idx + 1) ls)))"
    proof (rule Cons.IH)
      show "current_block ?st = map snd (g @ [(idx, l)])" using Cons.prems(1) by simp
      show "current_start_line ?st = first_nonblank (g @ [(idx, l)])"
        using Cons.prems(2) by (auto simp: first_nonblank_snoc split: option.splits)
      show "\<forall>il\<in>set (g @ [(idx, l)]). py_strip (snd il) \<noteq> DIVIDER"
        using Cons.prems(3) False by simp
    qed
    show ?thesis using False ih by simp
  qed
qed

lemma number_lines_append:
  "number_lines i (xs @ ys) = number_lines i xs @ number_lines (i + int (length xs)) ys"
  by (induction xs arbitrary: i) (auto simp: algebra_simps)

lemma snd_number_lines: "map snd (number_lines i ls) = ls"
  by (induction ls arbitrary: i) auto

lemma split_on_divider_last_group:
  "\<forall>il\<in>set g. py_strip (snd il) \<noteq> DIVIDER \<Longrightarrow> py_strip (snd d) = DIVIDER \<Longrightarrow>
     split_on_divider (xs @ d # g) = split_on_divider xs @ [g]"
proof (induction xs)
  case Nil
  then show ?case by (simp add: split_on_divider_no_divider)
next
  case (Cons x xs)
  then show ?case using split_on_divider_nonempty[of xs] by (cases "split_on_divider xs") auto
qed

lemma map_filter_append:
  "List.map_filter f (xs @ ys) = List.map_filter f xs @ List.map_filter f ys"
  by (simp add: List.map_filter_def)



lemma candidate_blocks_trailing_divider:
  assumes "py_strip dv = DIVIDER"
  shows "candidate_blocks (lines @ [dv]) = candidate_blocks lines"
proof -
  have "number_lines 1 (lines @ [dv]) = number_lines 1 lines @ (1 + int (length lines), dv) # []"
    by (simp add: number_lines_append)
  then have sp: "split_on_divider (number_lines 1 (lines @ [dv])) = split_on_divider (number_lines 1 lines) @ [[]]"
    using split_on_divider_last_group[of "[]" "(1 + int (length lines), dv)" "number_lines 1 lines"] assms
    by simp
  show ?thesis
    unfolding candidate_blocks_def sp map_filter_append
    by (simp add: map_filter_Cons List.map_filter_simps candidate_def first_nonblank_Nil)
qed

lemma tokenizer_spec:
  "parse_lines_into_messages fname lines
     = List.map_filter (\<lambda>(start, block). parse_block block fname start) (candidate_blocks lines)"
  using tokenize_lines_spec[of "\<lparr>messages = [], current_block = [], current_start_line = None\<rparr>" "[]" fname 1 lines]
  by (simp add: parse_lines_into_messages_def candidate_blocks_def first_nonblank_Nil)



section \<open>The chronological sort\<close>

lemma chrono_key_timestamp:
  "chrono_key m = (case record_timestamp m of Some ts \<Rightarrow> (0, ts)
                   | None \<Rightarrow> (1, ''9999-99-99T99:99:99.999999+99:99''))"
  by (auto simp: chrono_key_def record_timestamp_def split: json.splits)

lemma sorted_partition:
  assumes "sorted (map k ys)" "\<And>x y. P x \<Longrightarrow> \<not> P y \<Longrightarrow> k x < k y"
  shows "ys = filter P ys @ filter (\<lambda>y. \<not> P y) ys"
  using assms(1)
proof (induction ys)
  case Nil
  then show ?case by simp
next
  case (Cons y ys)
  then have ih: "ys = filter P ys @ filter (\<lambda>y. \<not> P y) ys" by simp
  show ?case
  proof (cases "P y")
    case True
    with ih show ?thesis by simp
  next
    case False
    have "\<not> P x" if "x \<in> set ys" for x
    proof
      assume "P x"
      then have "k x < k y" using False assms(2) by blast
      moreover have "k y \<le> k x" using Cons.prems that by auto
      ultimately show False by simp
    qed
    then have "filter P ys = []" by (simp add: filter_empty_conv)
    with False ih show ?thesis by simp
  qed
qed

lemma sort_key_constant:
  assumes "\<And>x. x \<in> set xs \<Longrightarrow> k x = c"
  shows "sort_key k xs = xs"
proof -
  have "filter (\<lambda>y. k y = c) (sort_key k xs) = filter (\<lambda>y. k y = c) xs"
    by (rule sort_key_stable)
  moreover have "filter (\<lambda>y. k y = c) (sort_key k xs) = sort_key k xs"
    using assms by (simp add: filter_id_conv)
  moreover have "filter (\<lambda>y. k y = c) xs = xs"
    using assms by (simp add: filter_id_conv)
  ultimately show ?thesis by simp
qed

lemma chrono_key_Some: "chrono_key m = (0, t) \<longleftrightarrow> record_timestamp m = Some t"
  by (auto simp: chrono_key_timestamp split: option.splits)

lemma chrono_key_None: "record_timestamp m = None \<Longrightarrow> chrono_key m = (1, ''9999-99-99T99:99:99.999999+99:99'')"
  by (simp add: chrono_key_timestamp)

lemma chrono_key_less:
  "record_timestamp x \<noteq> None \<Longrightarrow> \<not> record_timestamp y \<noteq> None \<Longrightarrow> chrono_key x < chrono_key y"
  by (auto simp: chrono_key_timestamp split: option.splits)

lemma sorted_timestamps:
  "sorted (map chrono_key xs) \<Longrightarrow> \<forall>m\<in>set xs. record_timestamp m \<noteq> None \<Longrightarrow>
     sorted (map (\<lambda>m. the (record_timestamp m)) xs)"
proof (induction xs)
  case Nil
  then show ?case by simp
next
  case (Cons x xs)
  have "the (record_timestamp x) \<le> the (record_timestamp y)" if "y \<in> set xs" for y
  proof -
    from Cons.prems that have "chrono_key x \<le> chrono_key y" by auto
    moreover from Cons.prems that obtain a b where "record_timestamp x = Some a" "record_timestamp y = Some b"
      by auto
    ultimately show ?thesis by (simp add: chrono_key_timestamp)
  qed
  with Cons show ?case by auto
qed

text \<open>
  C6, amended: of the records (the objects of the list), those with a timestamp that is a
  non-empty string come first, ascending by string comparison of the timestamp; those
  whose timestamp is missing, not a string or the empty string come after them, in their
  original order; and the records with one and the same timestamp keep their original
  order (the sort is stable).
\<close>

theorem sort_messages_chronological_order:
  "sort_messages_chronological data
     = filter (\<lambda>m. record_timestamp m \<noteq> None) (sort_messages_chronological data)
       @ filter (\<lambda>m. \<not> record_timestamp m \<noteq> None) (filter is_dict data)
   \<and> sorted (map (\<lambda>m. the (record_timestamp m))
               (filter (\<lambda>m. record_timestamp m \<noteq> None) (sort_messages_chronological data)))
   \<and> (\<forall>t. filter (\<lambda>m. record_timestamp m = Some t) (sort_messages_chronological data)
            = filter (\<lambda>m. record_timestamp m = Some t) (filter is_dict data))"
proof (intro conjI allI)
  let ?out = "sort_messages_chronological data"
  let ?dicts = "filter is_dict data"
  let ?P = "\<lambda>m. record_timestamp m \<noteq> None"
  have srt: "sorted (map chrono_key ?out)"
    by (simp add: sort_messages_chronological_def)
  have part: "?out = filter ?P ?out @ filter (\<lambda>m. \<not> ?P m) ?out"
    by (rule sorted_partition[OF srt]) (rule chrono_key_less)
  have "filter (\<lambda>m. \<not> ?P m) ?out = sort_key chrono_key (filter (\<lambda>m. \<not> ?P m) ?dicts)"
    by (simp add: sort_messages_chronological_def filter_sort)
  also have "\<dots> = filter (\<lambda>m. \<not> ?P m) ?dicts"
    by (rule sort_key_constant[where c = "(1, ''9999-99-99T99:99:99.999999+99:99'')"])
       (simp add: chrono_key_None)
  finally have rest: "filter (\<lambda>m. \<not> ?P m) ?out = filter (\<lambda>m. \<not> ?P m) ?dicts" .
  show "?out = filter ?P ?out @ filter (\<lambda>m. \<not> ?P m) ?dicts"
    using part unfolding rest .
  show "sorted (map (\<lambda>m. the (record_timestamp m)) (filter ?P ?out))"
    by (rule sorted_timestamps) (use srt in \<open>simp_all add: sorted_filter\<close>)
  fix t
  have "filter (\<lambda>m. chrono_key m = (0, t)) ?out = filter (\<lambda>m. chrono_key m = (0, t)) ?dicts"
    unfolding sort_messages_chronological_def by (rule sort_key_stable)
  then show "filter (\<lambda>m. record_timestamp m = Some t) ?out = filter (\<lambda>m. record_timestamp m = Some t) ?dicts"
    by (simp only: chrono_key_Some)
qed

theorem sort_messages_chronological_order_witness:
  "filter (\<lambda>m. record_timestamp m = Some ''2024-01-02'')
     (sort_messages_chronological
        [JInt 3, JObj [(''timestamp'', JStr ''2024-01-02''), (''id'', JInt 1)], JObj [(''id'', JInt 2)],
         JObj [(''timestamp'', JStr ''2024-01-01'')], JObj [(''timestamp'', JInt 5)],
         JObj [(''timestamp'', JStr ''2024-01-02''), (''id'', JInt 3)]])
   = [JObj [(''timestamp'', JStr ''2024-01-02''), (''id'', JInt 1)],
      JObj [(''timestamp'', JStr ''2024-01-02''), (''id'', JInt 3)]]
   \<and> sort_messages_chronological
        [JInt 3, JObj [(''timestamp'', JStr ''2024-01-02''), (''id'', JInt 1)], JObj [(''id'', JInt 2)],
         JObj [(''timestamp'', JStr ''2024-01-01'')], JObj [(''timestamp'', JInt 5)],
         JObj [(''timestamp'', JStr ''2024-01-02''), (''id'', JInt 3)]]
      = [JObj [(''timestamp'', JStr ''2024-01-01'')],
         JObj [(''timestamp'', JStr ''2024-01-02''), (''id'', JInt 1)],
         JObj [(''timestamp'', JStr ''2024-01-02''), (''id'', JInt 3)],
         JObj [(''id'', JInt 2)], JObj [(''timestamp'', JInt 5)]]"
proof -
  have e: "filter (\<lambda>m. record_timestamp m = Some ''2024-01-02'')
     (filter is_dict
        [JInt 3, JObj [(''timestamp'', JStr ''2024-01-02''), (''id'', JInt 1)], JObj [(''id'', JInt 2)],
         JObj [(''timestamp'', JStr ''2024-01-01'')], JObj [(''timestamp'', JInt 5)],
         JObj [(''timestamp'', JStr ''2024-01-02''), (''id'', JInt 3)]])
   = [JObj [(''timestamp'', JStr ''2024-01-02''), (''id'', JInt 1)],
      JObj [(''timestamp'', JStr ''2024-01-02''), (''id'', JInt 3)]]"
    by code_simp
  have s: "sort_messages_chronological
        [JInt 3, JObj [(''timestamp'', JStr ''2024-01-02''), (''id'', JInt 1)], JObj [(''id'', JInt 2)],
         JObj [(''timestamp'', JStr ''2024-01-01'')], JObj [(''timestamp'', JInt 5)],
         JObj [(''timestamp'', JStr ''2024-01-02''), (''id'', JInt 3)]]
      = [JObj [(''timestamp'', JStr ''2024-01-01'')],
         JObj [(''timestamp'', JStr ''2024-01-02''), (''id'', JInt 1)],
         JObj [(''timestamp'', JStr ''2024-01-02''), (''id'', JInt 3)],
         JObj [(''id'', JInt 2)], JObj [(''timestamp'', JInt 5)]]"
    by code_simp
  note t = sort_messages_chronological_order [
      of "[JInt 3, JObj [(''timestamp'', JStr ''2024-01-02''), (''id'', JInt 1)], JObj [(''id'', JInt 2)],
         JObj [(''timestamp'', JStr ''2024-01-01'')], JObj [(''timestamp'', JInt 5)],
         JObj [(''timestamp'', JStr ''2024-01-02''), (''id'', JInt 3)]]",
      THEN conjunct2, THEN conjunct2, THEN spec, of "''2024-01-02''"]
  from t e s show ?thesis by (simp only: simp_thms)
qed

text \<open>
  C6, as stated, fails for a timestamp that is the empty string: the record sorts with the
  records that have none. A record with no timestamp then stays before a record whose
  timestamp is a string, and the empty timestamp comes after a greater one.
\<close>

theorem sort_empty_timestamp_counterexample:
  "sort_messages_chronological [JObj [(''id'', JInt 1)], JObj [(''timestamp'', JStr [])]]
     = [JObj [(''id'', JInt 1)], JObj [(''timestamp'', JStr [])]]
   \<and> dict_get [(''id'', JInt 1)] ''timestamp'' = JNull
   \<and> dict_get [(''timestamp'', JStr [])] ''timestamp'' = JStr []
   \<and> sort_messages_chronological [JObj [(''timestamp'', JStr [])], JObj [(''timestamp'', JStr ''a'')]]
     = [JObj [(''timestamp'', JStr ''a'')], JObj [(''timestamp'', JStr [])]]
   \<and> ([] :: string) < ''a''"
  by code_simp

section \<open>The per-file summary\<close>

lemma setdefault_append_keys:
  "map fst (setdefault_append k v d) = (if k \<in> fst ` set d then map fst d else map fst d @ [k])"
proof (induction d)
  case Nil
  then show ?case by simp
next
  case (Cons a d)
  obtain k' vs where a: "a = (k', vs)" by (cases a)
  show ?case
  proof (cases "k' = k")
    case True
    then show ?thesis by (simp add: a)
  next
    case False
    with Cons show ?thesis by (simp add: a)
  qed
qed

lemma setdefault_append_map_of:
  "map_of (setdefault_append k v d)
     = (map_of d)(k \<mapsto> (case map_of d k of None \<Rightarrow> [v] | Some vs \<Rightarrow> vs @ [v]))"
  by (induction d) (auto simp: fun_eq_iff)

lemma group_by_file_grouped:
  assumes "distinct (map fst d)" "fst ` set d = source_file ` set pre"
    "\<And>f. map_of d f = (if f \<in> source_file ` set pre
                          then Some (map start_line (filter (\<lambda>m. source_file m = f) pre))
                          else None)"
  shows "distinct (map fst (group_by_file ms d))
       \<and> fst ` set (group_by_file ms d) = source_file ` set (pre @ ms)
       \<and> (\<forall>f. map_of (group_by_file ms d) f
                = (if f \<in> source_file ` set (pre @ ms)
                   then Some (map start_line (filter (\<lambda>m. source_file m = f) (pre @ ms)))
                   else None))"
  using assms
proof (induction ms arbitrary: d pre)
  case Nil
  then show ?case by simp
next
  case (Cons m ms)
  let ?d = "setdefault_append (source_file m) (start_line m) d"
  have k: "map fst ?d = (if source_file m \<in> fst ` set d then map fst d else map fst d @ [source_file m])"
    by (rule setdefault_append_keys)
  have 1: "distinct (map fst ?d)"
    unfolding k using Cons.prems(1) by auto
  have "set (map fst ?d) = insert (source_file m) (fst ` set d)"
    unfolding k by auto
  then have 2: "fst ` set ?d = source_file ` set (pre @ [m])"
    using Cons.prems(2) by auto
  have 3: "map_of ?d f = (if f \<in> source_file ` set (pre @ [m])
                          then Some (map start_line (filter (\<lambda>m. source_file m = f) (pre @ [m])))
                          else None)" for f
    unfolding setdefault_append_map_of using Cons.prems(3)[of f] Cons.prems(3)[of "source_file m"]
    by (auto simp: filter_empty_conv image_iff split: option.splits if_splits)
  from Cons.IH[of ?d "pre @ [m]", OF 1 2 3] show ?case by simp
qed

lemma group_by_file_spec:
  "distinct (map fst (group_by_file ms []))
   \<and> fst ` set (group_by_file ms []) = source_file ` set ms
   \<and> (\<forall>f nums. (f, nums) \<in> set (group_by_file ms [])
         \<longleftrightarrow> f \<in> source_file ` set ms \<and> nums = map start_line (filter (\<lambda>m. source_file m = f) ms))"
proof -
  note g = group_by_file_grouped[of "[]" "[]" ms, simplified]
  from g have d: "distinct (map fst (group_by_file ms []))" by blast
  have "(f, nums) \<in> set (group_by_file ms [])
         \<longleftrightarrow> f \<in> source_file ` set ms \<and> nums = map start_line (filter (\<lambda>m. source_file m = f) ms)"
    for f nums
  proof -
    have "(f, nums) \<in> set (group_by_file ms []) \<longleftrightarrow> map_of (group_by_file ms []) f = Some nums"
      using d by simp
    also have "\<dots> \<longleftrightarrow> f \<in> source_file ` set ms \<and> nums = map start_line (filter (\<lambda>m. source_file m = f) ms)"
      using g by auto
    finally show ?thesis .
  qed
  with g show ?thesis by blast
qed

lemma distinct_map_insort_key:
  "distinct (map g (insort_key k x xs)) \<longleftrightarrow> g x \<notin> g ` set xs \<and> distinct (map g xs)"
  by (induction xs) (auto simp: set_insort_key)

lemma distinct_map_sort_key:
  "distinct (map g (sort_key k xs)) \<longleftrightarrow> distinct (map g xs)"
  by (induction xs) (auto simp: sort_key_def distinct_map_insort_key simp flip: sort_key_def)

lemma group_by_file_empty: "group_by_file ms [] = [] \<longleftrightarrow> ms = []"
proof -
  have "fst ` set (group_by_file ms []) = source_file ` set ms"
    using group_by_file_spec[of ms] by blast
  then show ?thesis by (cases ms) auto
qed

lemma summary_line_shape:
  "summary_line (f, nums)
     = ''Found '' @ py_str_int (int (length nums)) @ '' entries in '' @ f @ '' on lines ''
       @ py_join '', '' (map py_str_int (take 20 (sort nums)))
       @ (if length nums > 20 then '', ... (+'' @ py_str_int (int (length nums) - 20) @ '' more)''
          else [])"
  by (simp add: summary_line_def Let_def MAX_LINES_LISTED_PER_FILE_def)

text \<open>
  C9: the summary has one line for each file that has a match, whatever the order of the
  matches; the line's numbers are the \<open>start_line\<close> values of all the matches of that file,
  ascending, the first 20 of them, followed by \<open>... (+K more)\<close> with \<open>K\<close> the count beyond 20
  when there are more; the lines are ordered by descending count, then by ascending file
  name in lower case.
\<close>

theorem file_summary_groups:
  "build_file_summary matched
     = (if matched = [] then ''Per-file summary:'' @ [NL] @ ''(No matches.)'' @ [NL]
        else py_join [NL] (''Per-file summary:'' # map summary_line (summary_items matched)) @ [NL])
   \<and> distinct (map fst (summary_items matched))
   \<and> (\<forall>f nums. (f, nums) \<in> set (summary_items matched)
          \<longleftrightarrow> f \<in> source_file ` set matched
              \<and> nums = map start_line (filter (\<lambda>m. source_file m = f) matched))
   \<and> sorted (map (\<lambda>kv. (- int (length (snd kv)), py_lower (fst kv))) (summary_items matched))
   \<and> (\<forall>f nums. summary_line (f, nums)
          = ''Found '' @ py_str_int (int (length nums)) @ '' entries in '' @ f @ '' on lines ''
            @ py_join '', '' (map py_str_int (take 20 (sort nums)))
            @ (if length nums > 20
               then '', ... (+'' @ py_str_int (int (length nums) - 20) @ '' more)'' else []))"
proof (intro conjI allI)
  show "build_file_summary matched
     = (if matched = [] then ''Per-file summary:'' @ [NL] @ ''(No matches.)'' @ [NL]
        else py_join [NL] (''Per-file summary:'' # map summary_line (summary_items matched)) @ [NL])"
    by (simp add: build_file_summary_def Let_def group_by_file_empty summary_items_def)
  show "distinct (map fst (summary_items matched))"
    using group_by_file_spec[of matched] by (simp add: summary_items_def distinct_map_sort_key)
  show "sorted (map (\<lambda>kv. (- int (length (snd kv)), py_lower (fst kv))) (summary_items matched))"
    using sorted_sort_key[of summary_key "group_by_file matched []"]
    by (simp add: summary_items_def summary_key_def[abs_def])
next
  fix f nums
  show "(f, nums) \<in> set (summary_items matched)
          \<longleftrightarrow> f \<in> source_file ` set matched
              \<and> nums = map start_line (filter (\<lambda>m. source_file m = f) matched)"
    using group_by_file_spec[of matched] by (simp add: summary_items_def)
  show "summary_line (f, nums)
          = ''Found '' @ py_str_int (int (length nums)) @ '' entries in '' @ f @ '' on lines ''
            @ py_join '', '' (map py_str_int (take 20 (sort nums)))
            @ (if length nums > 20
               then '', ... (+'' @ py_str_int (int (length nums) - 20) @ '' more)'' else [])"
    by (rule summary_line_shape)
qed

theorem file_summary_groups_witness:
  "(''b.txt'', [30, 4]) \<in> set (summary_items
     [\<lparr>timestamp = ''t1'', date = ''NO_DATE'', name = ''n'', content = None, attachments = [],
       raw_block = ''r'', source_file = ''b.txt'', start_line = 30\<rparr>,
      \<lparr>timestamp = ''t2'', date = ''NO_DATE'', name = ''n'', content = None, attachments = [],
       raw_block = ''r'', source_file = ''A.txt'', start_line = 7\<rparr>,
      \<lparr>timestamp = ''t3'', date = ''NO_DATE'', name = ''n'', content = None, attachments = [],
       raw_block = ''r'', source_file = ''b.txt'', start_line = 4\<rparr>,
      \<lparr>timestamp = ''t4'', date = ''NO_DATE'', name = ''n'', content = None, attachments = [],
       raw_block = ''r'', source_file = ''c.txt'', start_line = 120\<rparr>])
   \<and> build_file_summary
     [\<lparr>timestamp = ''t1'', date = ''NO_DATE'', name = ''n'', content = None, attachments = [],
       raw_block = ''r'', source_file = ''b.txt'', start_line = 30\<rparr>,
      \<lparr>timestamp = ''t2'', date = ''NO_DATE'', name = ''n'', content = None, attachments = [],
       raw_block = ''r'', source_file = ''A.txt'', start_line = 7\<rparr>,
      \<lparr>timestamp = ''t3'', date = ''NO_DATE'', name = ''n'', content = None, attachments = [],
       raw_block = ''r'', source_file = ''b.txt'', start_line = 4\<rparr>,
      \<lparr>timestamp = ''t4'', date = ''NO_DATE'', name = ''n'', content = None, attachments = [],
       raw_block = ''r'', source_file = ''c.txt'', start_line = 120\<rparr>]
     = ''Per-file summary:'' @ [NL] @ ''Found 2 entries in b.txt on lines 4, 30'' @ [NL]
       @ ''Found 1 entries in A.txt on lines 7'' @ [NL]
       @ ''Found 1 entries in c.txt on lines 120'' @ [NL]
   \<and> summary_line (''a.txt'', map int (rev [1..<26]))
     = ''Found 25 entries in a.txt on lines 1, 2, 3, 4, 5, 6, 7, 8, 9, 10, 11, 12, 13, 14, 15, 16, 17, 18, 19, 20, ... (+5 more)''"
proof -
  let ?M = "[\<lparr>timestamp = ''t1'', date = ''NO_DATE'', name = ''n'', content = None, attachments = [],
       raw_block = ''r'', source_file = ''b.txt'', start_line = 30\<rparr>,
      \<lparr>timestamp = ''t2'', date = ''NO_DATE'', name = ''n'', content = None, attachments = [],
       raw_block = ''r'', source_file = ''A.txt'', start_line = 7\<rparr>,
      \<lparr>timestamp = ''t3'', date = ''NO_DATE'', name = ''n'', content = None, attachments = [],
       raw_block = ''r'', source_file = ''b.txt'', start_line = 4\<rparr>,
      \<lparr>timestamp = ''t4'', date = ''NO_DATE'', name = ''n'', content = None, attachments = [],
       raw_block = ''r'', source_file = ''c.txt'', start_line = 120\<rparr>]"
  have m: "''b.txt'' \<in> source_file ` set ?M
           \<and> [30, 4] = map start_line (filter (\<lambda>m. source_file m = ''b.txt'') ?M)"
    by simp
  have 1: "(''b.txt'', [30, 4]) \<in> set (summary_items ?M)"
    using file_summary_groups [of ?M, THEN conjunct2, THEN conjunct2, THEN conjunct1, THEN spec,
                               THEN spec, of "''b.txt''" "[30, 4]"] m
    by (simp only: simp_thms)
  have 2: "build_file_summary ?M
     = ''Per-file summary:'' @ [NL] @ ''Found 2 entries in b.txt on lines 4, 30'' @ [NL]
       @ ''Found 1 entries in A.txt on lines 7'' @ [NL]
       @ ''Found 1 entries in c.txt on lines 120'' @ [NL]"
    by code_simp
  have 3: "summary_line (''a.txt'', map int (rev [1..<26]))
     = ''Found 25 entries in a.txt on lines 1, 2, 3, 4, 5, 6, 7, 8, 9, 10, 11, 12, 13, 14, 15, 16, 17, 18, 19, 20, ... (+5 more)''"
    by code_simp
  from 1 2 3 show ?thesis by (intro conjI)
qed

section \<open>The round trip\<close>

subsection \<open>Stripping\<close>

lemma py_rstrip_snoc:
  "py_rstrip (s @ [c]) = (if py_isspace c then py_rstrip s else s @ [c])"
  by (simp add: py_rstrip_def)

lemma py_rstrip_last: "s \<noteq> [] \<Longrightarrow> \<not> py_isspace (last s) \<Longrightarrow> py_rstrip s = s"
  by (cases s rule: rev_cases) (auto simp: py_rstrip_snoc)

lemma py_rstrip_Cons:
  "py_rstrip (c # s) = (if list_all py_isspace (c # s) then [] else c # py_rstrip s)"
proof (induction s rule: rev_induct)
  case Nil
  then show ?case by (simp add: py_rstrip_def)
next
  case (snoc x xs)
  have "py_rstrip (c # xs @ [x]) = py_rstrip ((c # xs) @ [x])" by simp
  also have "\<dots> = (if py_isspace x then py_rstrip (c # xs) else (c # xs) @ [x])"
    by (rule py_rstrip_snoc)
  finally show ?case using snoc by (auto simp: py_rstrip_snoc)
qed

lemma py_rstrip_all_space: "list_all py_isspace s \<Longrightarrow> py_rstrip s = []"
  by (induction s) (auto simp: py_rstrip_Cons py_rstrip_def)

lemma py_strip_nonspace_Cons:
  "\<not> py_isspace c \<Longrightarrow> py_strip (c # s) = c # py_rstrip s"
  by (simp add: py_strip_def py_rstrip_Cons py_lstrip_def)

lemma py_strip_space_Cons: "py_isspace c \<Longrightarrow> py_strip (c # s) = py_strip s"
  by (auto simp: py_strip_def py_rstrip_Cons py_lstrip_def py_rstrip_all_space)

lemma py_rstrip_not_space_last: "py_rstrip s \<noteq> [] \<Longrightarrow> \<not> py_isspace (last (py_rstrip s))"
proof (induction s rule: rev_induct)
  case Nil
  then show ?case by (simp add: py_rstrip_def)
next
  case (snoc x xs)
  then show ?case by (auto simp: py_rstrip_snoc split: if_splits)
qed

lemma py_lstrip_last: "py_lstrip s \<noteq> [] \<Longrightarrow> last (py_lstrip s) = last s"
  unfolding py_lstrip_def by (induction s) (auto split: if_splits)

lemma py_lstrip_not_space_hd: "py_lstrip s \<noteq> [] \<Longrightarrow> \<not> py_isspace (hd (py_lstrip s))"
  unfolding py_lstrip_def by (metis hd_dropWhile)

lemma py_strip_ends:
  assumes "py_strip s \<noteq> []"
  shows "\<not> py_isspace (hd (py_strip s)) \<and> \<not> py_isspace (last (py_strip s))"
proof -
  have ne: "py_rstrip s \<noteq> []" using assms by (auto simp: py_strip_def py_lstrip_def)
  have "last (py_strip s) = last (py_rstrip s)"
    using assms unfolding py_strip_def by (rule py_lstrip_last)
  with py_rstrip_not_space_last[OF ne] py_lstrip_not_space_hd[of "py_rstrip s"] assms
  show ?thesis by (simp add: py_strip_def)
qed

lemma py_strip_trimmed:
  assumes "s \<noteq> []" "\<not> py_isspace (hd s)" "\<not> py_isspace (last s)"
  shows "py_strip s = s"
proof -
  have "py_rstrip s = s" using assms by (intro py_rstrip_last)
  moreover have "py_lstrip s = s" using assms by (cases s) (auto simp: py_lstrip_def)
  ultimately show ?thesis by (simp add: py_strip_def)
qed

lemma py_strip_idem: "py_strip (py_strip s) = py_strip s"
proof (cases "py_strip s = []")
  case True
  have "py_strip [] = []" by (simp add: py_strip_def py_rstrip_def py_lstrip_def)
  then show ?thesis unfolding True .
next
  case False
  with py_strip_ends[OF False] show ?thesis by (intro py_strip_trimmed) auto
qed

lemma trimmed_ends:
  "py_strip s = s \<Longrightarrow> s \<noteq> [] \<Longrightarrow> \<not> py_isspace (hd s) \<and> \<not> py_isspace (last s)"
  using py_strip_ends[of s] by simp

lemma rstrip_chars_no_last:
  "s = [] \<or> last s \<notin> cs \<Longrightarrow> rstrip_chars cs s = s"
  by (cases s rule: rev_cases) (auto simp: rstrip_chars_def)

subsection \<open>Lines of a joined text\<close>

lemma is_linebreak_CR: "is_linebreak CR"
  by (simp add: is_linebreak_def code_point_def)

lemma splitlines_from_plain_char:
  "\<not> is_linebreak c \<Longrightarrow> s \<noteq> [] \<Longrightarrow> splitlines_from k cur (c # s) = splitlines_from k (cur @ [c]) s"
  using is_linebreak_CR by (cases s) auto

lemma splitlines_from_line:
  "no_linebreak l \<Longrightarrow>
     splitlines_from k cur (l @ NL # rest) = (cur @ l @ (if k then [NL] else [])) # splitlines_from k [] rest"
proof (induction l arbitrary: cur)
  case Nil
  show ?case by (cases rest) (auto simp: is_linebreak_NL)
next
  case (Cons c l)
  then have c: "\<not> is_linebreak c" and l: "no_linebreak l" by (auto simp: no_linebreak_def)
  have "splitlines_from k cur ((c # l) @ NL # rest) = splitlines_from k (cur @ [c]) (l @ NL # rest)"
    using splitlines_from_plain_char[OF c, of "l @ NL # rest" k cur] by simp
  also have "\<dots> = ((cur @ [c]) @ l @ (if k then [NL] else [])) # splitlines_from k [] rest"
    by (rule Cons.IH[OF l])
  finally show ?case by simp
qed

lemma splitlines_join:
  "L \<noteq> [] \<Longrightarrow> list_all no_linebreak L \<Longrightarrow> py_splitlines False (py_join [NL] L @ [NL]) = L"
proof (induction L rule: induct_list012)
  case 1
  then show ?case by simp
next
  case (2 x)
  then show ?case
    using splitlines_from_line[of x False "[]" "[]"] by (simp add: py_splitlines_def)
next
  case (3 x y ys)
  then have ih: "py_splitlines False (py_join [NL] (y # ys) @ [NL]) = y # ys" and x: "no_linebreak x"
    by auto
  have "py_splitlines False (py_join [NL] (x # y # ys) @ [NL])
          = splitlines_from False [] (x @ NL # (py_join [NL] (y # ys) @ [NL]))"
    by (simp add: py_splitlines_def)
  also have "\<dots> = x # splitlines_from False [] (py_join [NL] (y # ys) @ [NL])"
    using splitlines_from_line[OF x, of False "[]"] by simp
  finally show ?case using ih by (simp add: py_splitlines_def)
qed

lemma split_nl_nonempty: "split_nl t \<noteq> []"
  by (induction t) (auto split: list.splits)

lemma py_join_split_nl: "py_join [NL] (split_nl t) = t"
proof (induction t)
  case Nil
  then show ?case by simp
next
  case (Cons c t)
  obtain l ls where s: "split_nl t = l # ls" using split_nl_nonempty[of t] by (cases "split_nl t") auto
  show ?case
  proof (cases "c = NL")
    case True
    with Cons s show ?thesis by simp
  next
    case False
    with Cons s show ?thesis by (cases ls) auto
  qed
qed

lemma py_join_append:
  "xs \<noteq> [] \<Longrightarrow> ys \<noteq> [] \<Longrightarrow> py_join sep (xs @ ys) = py_join sep xs @ sep @ py_join sep ys"
proof (induction sep xs rule: py_join.induct)
  case (1 sep)
  then show ?case by simp
next
  case (2 sep x)
  then show ?case by (cases ys) auto
next
  case (3 sep x y ys)
  then show ?case by simp
qed

subsection \<open>Reading formatted lines back\<close>

lemma is_linebreak_imp_NL: "no_linebreak l \<Longrightarrow> NL \<notin> set l"
  using is_linebreak_NL by (auto simp: no_linebreak_def list_all_iff)

lemma rstrip_NL_no_linebreak: "no_linebreak l \<Longrightarrow> rstrip_chars {NL} l = l"
proof -
  assume "no_linebreak l"
  then have "NL \<notin> set l" by (rule is_linebreak_imp_NL)
  then have "l = [] \<or> last l \<notin> {NL}" by (cases l rule: rev_cases) auto
  then show ?thesis by (rule rstrip_chars_no_last)
qed

lemma space_is_space: "py_isspace CHR '' ''"
  by (simp add: py_isspace_def code_point_def)

lemma scan_plain_step:
  assumes "plain_line l"
  shows "scan_lines (l # rest) cl atts = scan_lines rest (cl @ [l]) atts"
proof -
  have r: "rstrip_chars {NL} l = l" using assms by (simp add: plain_line_def rstrip_NL_no_linebreak)
  show ?thesis using assms by (cases rest) (simp_all add: r plain_line_def Let_def)
qed

lemma scan_plain_lines:
  "list_all plain_line ls \<Longrightarrow> scan_lines (ls @ rest) cl atts = scan_lines rest (cl @ ls) atts"
  by (induction ls arbitrary: cl) (simp_all add: scan_plain_step)

lemma attachment_line_facts:
  assumes "plain_field f"
  shows "rstrip_chars {NL} (''Attachment: '' @ f) = ''Attachment: '' @ f"
    and "py_startswith (''Attachment: '' @ f) ''Attachment:''"
    and "py_strip (drop 11 (''Attachment: '' @ f)) = f"
proof -
  have "no_linebreak (''Attachment: '' @ f)"
    using assms by (simp add: plain_field_def no_linebreak_def is_linebreak_def code_point_def)
  then show "rstrip_chars {NL} (''Attachment: '' @ f) = ''Attachment: '' @ f"
    by (rule rstrip_NL_no_linebreak)
  show "py_startswith (''Attachment: '' @ f) ''Attachment:''"
    by (simp add: py_startswith_def)
  show "py_strip (drop 11 (''Attachment: '' @ f)) = f"
    using assms by (simp add: plain_field_def py_strip_space_Cons space_is_space)
qed

lemma proxy_line_facts:
  assumes "plain_field u"
  shows "rstrip_chars {NL} (''Proxy: '' @ u) = ''Proxy: '' @ u"
    and "py_startswith (''Proxy: '' @ u) ''Proxy:''"
    and "py_strip (drop 6 (''Proxy: '' @ u)) = u"
proof -
  have "no_linebreak (''Proxy: '' @ u)"
    using assms by (simp add: plain_field_def no_linebreak_def is_linebreak_def code_point_def)
  then show "rstrip_chars {NL} (''Proxy: '' @ u) = ''Proxy: '' @ u"
    by (rule rstrip_NL_no_linebreak)
  show "py_startswith (''Proxy: '' @ u) ''Proxy:''"
    by (simp add: py_startswith_def)
  show "py_strip (drop 6 (''Proxy: '' @ u)) = u"
    using assms by (simp add: plain_field_def py_strip_space_Cons space_is_space)
qed

lemma scan_attachment_step:
  assumes "plain_field f" "plain_field u"
  shows "scan_lines ((''Attachment: '' @ f) # (''Proxy: '' @ u) # rest) cl atts
           = scan_lines rest cl (atts @ [mk_attachment f u])"
  using attachment_line_facts[OF assms(1)] proxy_line_facts[OF assms(2)]
  by (simp add: Let_def del: append.simps)

lemma scan_attachment_lines:
  "list_all (\<lambda>fu. plain_field (fst fu) \<and> plain_field (snd fu)) atts \<Longrightarrow>
     scan_lines (attachment_lines atts) cl acc = (cl, acc @ map (\<lambda>fu. mk_attachment (fst fu) (snd fu)) atts)"
proof (induction atts arbitrary: acc)
  case Nil
  then show ?case by simp
next
  case (Cons a atts)
  obtain f u where a: "a = (f, u)" by (cases a)
  from Cons.prems a have p: "plain_field f" "plain_field u" by auto
  from Cons.prems have r: "list_all (\<lambda>fu. plain_field (fst fu) \<and> plain_field (snd fu)) atts" by simp
  show ?case
    unfolding a attachment_lines.simps scan_attachment_step[OF p] Cons.IH[OF r] by simp
qed

lemma parse_header_format:
  assumes "ts \<noteq> []" "CHR '']'' \<notin> set ts" "nm \<noteq> []" "plain_field nm"
  shows "parse_header (''['' @ ts @ ''] '' @ nm) = Some (ts, nm)"
proof -
  have e: "\<not> py_isspace (hd nm)" "\<not> py_isspace (last nm)"
    using trimmed_ends[of nm] assms(3,4) by (auto simp: plain_field_def)
  have nl: "NL \<notin> set nm" using assms(4) by (simp add: plain_field_def is_linebreak_imp_NL)
  obtain rest where rest: "rest = CHR '' '' # nm" by simp
  have tk: "takeWhile (\<lambda>x. x \<noteq> CHR '']'') (ts @ CHR '']'' # rest) = ts"
    using assms(2) by (rule takeWhile_neq_append)
  have dr: "dropWhile (\<lambda>x. x \<noteq> CHR '']'') (ts @ CHR '']'' # rest) = CHR '']'' # rest"
    using assms(2) by (rule dropWhile_neq_append)
  have K: "length (takeWhile py_isspace rest) = Suc 0"
    unfolding rest using e(1) assms(3) by (cases nm) (auto simp: space_is_space)
  have n: "name_at nm = Some nm" using assms(3) nl e(2) by (rule name_at_full)
  have g: "greedy_space (length (takeWhile py_isspace rest)) rest = Some nm"
    unfolding K by (simp add: rest n)
  have line: "''['' @ ts @ ''] '' @ nm = CHR ''['' # (ts @ CHR '']'' # rest)"
    by (simp add: rest)
  show ?thesis
    unfolding line using assms(1) by (simp add: parse_header_def tk dr g)
qed

lemma py_join_flatten:
  assumes "ys \<noteq> []"
  shows "py_join sep (xs @ [py_join sep ys] @ zs) = py_join sep (xs @ ys @ zs)"
proof (cases "xs = []")
  case True
  show ?thesis
  proof (cases "zs = []")
    case True
    with \<open>xs = []\<close> show ?thesis by simp
  next
    case False
    with \<open>xs = []\<close> assms show ?thesis
      using py_join_append[of "[py_join sep ys]" zs sep] py_join_append[of ys zs sep] by simp
  qed
next
  case False
  show ?thesis
  proof (cases "zs = []")
    case True
    with False assms show ?thesis
      using py_join_append[of xs "[py_join sep ys]" sep] py_join_append[of xs ys sep] by simp
  next
    case zs: False
    have "py_join sep (xs @ [py_join sep ys] @ zs) = py_join sep xs @ sep @ py_join sep ([py_join sep ys] @ zs)"
      using False by (intro py_join_append) auto
    also have "\<dots> = py_join sep xs @ sep @ py_join sep ys @ sep @ py_join sep zs"
      using zs py_join_append[of "[py_join sep ys]" zs sep] by simp
    also have "\<dots> = py_join sep xs @ sep @ py_join sep (ys @ zs)"
      using zs assms py_join_append[of ys zs sep] by simp
    also have "\<dots> = py_join sep (xs @ ys @ zs)"
      using False assms by (intro py_join_append[symmetric]) auto
    finally show ?thesis .
  qed
qed

lemma no_linebreak_DIVIDER: "no_linebreak DIVIDER"
  by code_simp

lemma py_strip_DIVIDER: "py_strip DIVIDER = DIVIDER"
  by code_simp

lemma hd_DIVIDER: "hd DIVIDER = CHR ''-''"
  by code_simp

lemma py_strip_hd:
  "\<not> py_isspace c \<Longrightarrow> py_strip (c # s) \<noteq> [] \<and> hd (py_strip (c # s)) = c"
  by (simp add: py_strip_nonspace_Cons)

lemma not_divider_by_head:
  assumes "\<not> py_isspace c" "c \<noteq> CHR ''-''"
  shows "py_strip (c # s) \<noteq> DIVIDER" "py_strip (c # s) \<noteq> []"
  using py_strip_hd[OF assms(1), of s] hd_DIVIDER assms(2) by auto

lemma attachment_lines_props:
  assumes "list_all (\<lambda>fu. plain_field (fst fu) \<and> plain_field (snd fu)) atts" "l \<in> set (attachment_lines atts)"
  shows "no_linebreak l \<and> py_strip l \<noteq> DIVIDER \<and> py_strip l \<noteq> []"
  using assms
proof (induction atts)
  case Nil
  then show ?case by simp
next
  case (Cons a atts)
  obtain f u where a: "a = (f, u)" by (cases a)
  from Cons.prems(1) a have p: "plain_field f" "plain_field u" by auto
  have A: "no_linebreak (''Attachment: '' @ f)" "no_linebreak (''Proxy: '' @ u)"
    using p by (simp_all add: plain_field_def no_linebreak_def is_linebreak_def code_point_def)
  have B: "py_strip (''Attachment: '' @ f) \<noteq> DIVIDER" "py_strip (''Attachment: '' @ f) \<noteq> []"
    using not_divider_by_head[of "CHR ''A''" "''ttachment: '' @ f"]
    by (simp_all add: py_isspace_def code_point_def)
  have C: "py_strip (''Proxy: '' @ u) \<noteq> DIVIDER" "py_strip (''Proxy: '' @ u) \<noteq> []"
    using not_divider_by_head[of "CHR ''P''" "''roxy: '' @ u"]
    by (simp_all add: py_isspace_def code_point_def)
  from Cons.prems(2) a consider "l = ''Attachment: '' @ f" | "l = ''Proxy: '' @ u" | "l \<in> set (attachment_lines atts)"
    by auto
  then show ?case
  proof cases
    case 1
    with A B show ?thesis by simp
  next
    case 2
    with A C show ?thesis by simp
  next
    case 3
    with Cons show ?thesis by simp
  qed
qed

lemma header_line_props:
  assumes "no_linebreak ts" "no_linebreak nm"
  shows "no_linebreak (''['' @ ts @ ''] '' @ nm)"
    and "py_strip (''['' @ ts @ ''] '' @ nm) \<noteq> DIVIDER"
    and "py_strip (''['' @ ts @ ''] '' @ nm) \<noteq> []"
proof -
  show "no_linebreak (''['' @ ts @ ''] '' @ nm)"
    using assms by (simp add: no_linebreak_def is_linebreak_def code_point_def)
  show "py_strip (''['' @ ts @ ''] '' @ nm) \<noteq> DIVIDER" "py_strip (''['' @ ts @ ''] '' @ nm) \<noteq> []"
    using not_divider_by_head[of "CHR ''[''" "ts @ ''] '' @ nm"]
    by (simp_all add: py_isspace_def code_point_def)
qed

lemma pop_blank_lines_id:
  "L \<noteq> [] \<Longrightarrow> py_strip (last L) \<noteq> [] \<Longrightarrow> pop_blank_lines L = L"
  by (cases L rule: rev_cases) (auto simp: pop_blank_lines_def)

lemma first_nonblank_head:
  "py_strip h \<noteq> [] \<Longrightarrow> first_nonblank (number_lines i (h # b)) = Some i"
  by (simp add: first_nonblank_def)

lemma candidate_blocks_single:
  assumes "\<forall>l\<in>set (h # b). py_strip l \<noteq> DIVIDER" "py_strip h \<noteq> []"
  shows "candidate_blocks (h # b) = [(1, h # b)]"
proof -
  have nd: "\<forall>il\<in>set (number_lines 1 (h # b)). py_strip (snd il) \<noteq> DIVIDER"
    using assms(1) snd_number_lines[of 1 "h # b"] by (metis (no_types, lifting) imageI set_map)
  have sp: "split_on_divider (number_lines 1 (h # b)) = [number_lines 1 (h # b)]"
    by (rule split_on_divider_no_divider[OF nd])
  have c: "candidate (number_lines 1 (h # b)) = Some (1, h # b)"
    unfolding candidate_def first_nonblank_head[OF assms(2)] using snd_number_lines[of 1 "h # b"] by simp
  show ?thesis
    unfolding candidate_blocks_def sp
    by (simp only: map_filter_Cons c option.case List.map_filter_simps)
qed

lemma norm_text_Some: "norm_text v = Some t \<Longrightarrow> py_strip t = t \<and> t \<noteq> []"
  by (auto simp: norm_text_def Let_def py_strip_idem split: json.splits if_splits)

lemma format_message_lines:
  assumes "format_message repl str_of msg = Inr text" "get_global_name repl str_of msg = Inr nm"
  shows "text = py_join [NL]
           ([''['' @ py_str str_of (py_or (dict_get msg ''timestamp'') (JStr ''NO_TIMESTAMP'')) @ ''] '' @ nm]
            @ (case norm_text (dict_get msg ''content'') of None \<Rightarrow> [] | Some t \<Rightarrow> split_nl t)
            @ (attachment_lines (extract_attachments str_of msg) @ [DIVIDER]))"
proof (cases "norm_text (dict_get msg ''content'')")
  case None
  with assms show ?thesis by (simp add: format_message_def Let_def)
next
  case (Some t)
  let ?h = "''['' @ py_str str_of (py_or (dict_get msg ''timestamp'') (JStr ''NO_TIMESTAMP'')) @ ''] '' @ nm"
  let ?z = "attachment_lines (extract_attachments str_of msg) @ [DIVIDER]"
  from assms Some have "text = py_join [NL] ([?h] @ [t] @ ?z)"
    by (simp add: format_message_def Let_def)
  also have "\<dots> = py_join [NL] ([?h] @ [py_join [NL] (split_nl t)] @ ?z)"
    by (simp only: py_join_split_nl)
  also have "\<dots> = py_join [NL] ([?h] @ split_nl t @ ?z)"
    by (rule py_join_flatten[OF split_nl_nonempty])
  finally show ?thesis by (simp only: Some option.case)
qed

lemma parse_block_formatted:
  assumes "ts \<noteq> []" "CHR '']'' \<notin> set ts" "nm \<noteq> []" "plain_field nm"
    and "list_all plain_line cl"
    and "list_all (\<lambda>fu. plain_field (fst fu) \<and> plain_field (snd fu)) atts"
  shows "\<exists>m. parse_block ((''['' @ ts @ ''] '' @ nm) # cl @ attachment_lines atts) fname start = Some m
           \<and> timestamp m = ts \<and> name m = nm
           \<and> content m = (if cl = [] then None
                          else if py_strip (py_join [NL] cl) = [] then None
                          else Some (py_strip (py_join [NL] cl)))
           \<and> attachments m = map (\<lambda>fu. mk_attachment (fst fu) (snd fu)) atts"
proof -
  let ?h = "''['' @ ts @ ''] '' @ nm"
  let ?L = "?h # cl @ attachment_lines atts"
  have nb: "py_strip l \<noteq> []" if "l \<in> set ?L" for l
  proof -
    from that consider "l = ?h" | "l \<in> set cl" | "l \<in> set (attachment_lines atts)" by auto
    then show ?thesis
    proof cases
      case 1
      then show ?thesis
        using not_divider_by_head(2)[of "CHR ''[''" "ts @ ''] '' @ nm"]
        by (simp add: py_isspace_def code_point_def)
    next
      case 2
      with assms(5) show ?thesis by (auto simp: list_all_iff plain_line_def)
    next
      case 3
      with attachment_lines_props[OF assms(6)] show ?thesis by blast
    qed
  qed
  have "py_strip (last ?L) \<noteq> []" by (rule nb) (rule last_in_set, simp)
  then have pop: "pop_blank_lines ?L = ?L" by (intro pop_blank_lines_id) simp_all
  have hdr: "parse_header ?h = Some (ts, nm)"
    by (rule parse_header_format[OF assms(1-4)])
  have scan: "scan_lines (cl @ attachment_lines atts) [] []
                = (cl, map (\<lambda>fu. mk_attachment (fst fu) (snd fu)) atts)"
    using scan_plain_lines[OF assms(5), of "attachment_lines atts" "[]" "[]"]
      scan_attachment_lines[OF assms(6), of cl "[]"] by simp
  show ?thesis
    unfolding parse_block_def pop Let_def
    using assms(1,3) by (simp add: hdr scan del: append.simps)
qed

subsection \<open>Formatting, then parsing\<close>

text \<open>
  C1, amended: a record that formats without error and whose fields are safe for the
  format (\<^const>\<open>round_trip_safe\<close>) is read back: the text that \<open>format_message\<close> gives,
  followed by the newline that \<open>parse_one_file\<close> writes after it, parses as a file to
  exactly one message, with the record's timestamp text, its resolved and normalized
  display name, its trimmed content (absent if empty), and its attachments that have both
  \<open>filename\<close> and \<open>proxy_url\<close>, in order.
\<close>

theorem format_parse_round_trip:
  assumes fmt: "format_message repl str_of msg = Inr text"
    and gn: "get_global_name repl str_of msg = Inr nm"
    and safe: "round_trip_safe
                 (py_str str_of (py_or (dict_get msg ''timestamp'') (JStr ''NO_TIMESTAMP''))) nm
                 (norm_text (dict_get msg ''content'')) (extract_attachments str_of msg)"
  shows "\<exists>m. parse_file_into_messages fname (text @ [NL]) = [m]
           \<and> timestamp m = py_str str_of (py_or (dict_get msg ''timestamp'') (JStr ''NO_TIMESTAMP''))
           \<and> name m = nm
           \<and> content m = norm_text (dict_get msg ''content'')
           \<and> map (\<lambda>a. (filename a, proxy_url a)) (attachments m) = extract_attachments str_of msg"
proof -
  obtain ts where ts: "ts = py_str str_of (py_or (dict_get msg ''timestamp'') (JStr ''NO_TIMESTAMP''))"
    by simp
  obtain c where c: "c = norm_text (dict_get msg ''content'')" by simp
  obtain atts where atts: "atts = extract_attachments str_of msg" by simp
  obtain cl where cl: "cl = (case c of None \<Rightarrow> [] | Some t \<Rightarrow> split_nl t)" by simp
  obtain h where h: "h = ''['' @ ts @ ''] '' @ nm" by simp
  from safe have s: "ts \<noteq> []" "CHR '']'' \<notin> set ts" "no_linebreak ts" "nm \<noteq> []" "plain_field nm"
    "list_all (\<lambda>fu. plain_field (fst fu) \<and> plain_field (snd fu)) atts"
    and sc: "case c of None \<Rightarrow> True | Some t \<Rightarrow> list_all plain_line (split_nl t)"
    unfolding round_trip_safe_def ts c atts by blast+
  have pl: "list_all plain_line cl"
    using sc unfolding cl by (cases c) simp_all
  have tx: "text = py_join [NL] ((h # cl @ attachment_lines atts) @ [DIVIDER])"
    using format_message_lines[OF fmt gn] unfolding ts[symmetric] c[symmetric] atts[symmetric] cl[symmetric] h[symmetric]
    by simp
  have nlb: "no_linebreak l \<and> py_strip l \<noteq> DIVIDER" if "l \<in> set (h # cl @ attachment_lines atts)" for l
  proof -
    from that consider "l = h" | "l \<in> set cl" | "l \<in> set (attachment_lines atts)" by auto
    then show ?thesis
    proof cases
      case 1
      then show ?thesis
        using header_line_props(1,2)[OF s(3), of nm] s(5) unfolding h by (simp add: plain_field_def)
    next
      case 2
      with pl show ?thesis by (auto simp: list_all_iff plain_line_def)
    next
      case 3
      with attachment_lines_props[OF s(6)] show ?thesis by blast
    qed
  qed
  have "list_all no_linebreak ((h # cl @ attachment_lines atts) @ [DIVIDER])"
    using nlb no_linebreak_DIVIDER by (auto simp: list_all_iff)
  then have lines: "py_splitlines False (text @ [NL]) = (h # cl @ attachment_lines atts) @ [DIVIDER]"
    unfolding tx by (intro splitlines_join) simp_all
  have hb: "py_strip h \<noteq> []"
    using header_line_props(3)[of ts nm] s(3,5) unfolding h by (simp add: plain_field_def)
  have cb: "candidate_blocks ((h # cl @ attachment_lines atts) @ [DIVIDER])
              = [(1, h # cl @ attachment_lines atts)]"
    using candidate_blocks_trailing_divider[OF py_strip_DIVIDER, of "h # cl @ attachment_lines atts"]
      candidate_blocks_single[of h "cl @ attachment_lines atts"] nlb hb
    by simp
  obtain m where m: "parse_block (h # cl @ attachment_lines atts) fname 1 = Some m"
    "timestamp m = ts" "name m = nm"
    "content m = (if cl = [] then None
                  else if py_strip (py_join [NL] cl) = [] then None
                  else Some (py_strip (py_join [NL] cl)))"
    "attachments m = map (\<lambda>fu. mk_attachment (fst fu) (snd fu)) atts"
    using parse_block_formatted[OF s(1,2,4,5) pl s(6), of fname 1] unfolding h by blast
  have pf: "parse_file_into_messages fname (text @ [NL]) = [m]"
    unfolding parse_file_into_messages_def lines tokenizer_spec cb
    by (simp add: map_filter_Cons List.map_filter_simps m(1))
  have cm: "content m = c"
  proof (cases c)
    case None
    then show ?thesis using m(4) by (simp add: cl)
  next
    case (Some t)
    then have "py_strip t = t \<and> t \<noteq> []" using norm_text_Some[of "dict_get msg ''content''" t] c by simp
    with Some show ?thesis using m(4) split_nl_nonempty[of t] by (simp add: cl py_join_split_nl)
  qed
  have am: "map (\<lambda>a. (filename a, proxy_url a)) (attachments m) = atts"
    unfolding m(5) by (simp add: mk_attachment_def comp_def)
  from pf m(2,3) cm am show ?thesis
    unfolding ts c atts by blast
qed

theorem format_parse_round_trip_witness:
  "\<exists>m. parse_file_into_messages ''a.txt''
          ((''[2024-01-02T10:00:00Z] Bob Smith'' @ [NL] @ ''hello there'' @ [NL] @ ''second line'' @ [NL]
            @ ''Attachment: pic.PNG'' @ [NL] @ ''Proxy: http://x/pic.PNG'' @ [NL] @ DIVIDER) @ [NL]) = [m]
       \<and> timestamp m = ''2024-01-02T10:00:00Z''
       \<and> name m = ''Bob Smith''
       \<and> content m = Some (''hello there'' @ [NL] @ ''second line'')
       \<and> map (\<lambda>a. (filename a, proxy_url a)) (attachments m) = [(''pic.PNG'', ''http://x/pic.PNG'')]"
proof -
  let ?msg = "[(''timestamp'', JStr ''2024-01-02T10:00:00Z''),
      (''author'', JObj [(''global_name'', JStr ''Bob Smith''), (''username'', JStr ''bob'')]),
      (''content'', JStr (''  hello there'' @ [NL] @ ''second line  '')),
      (''attachments'', JArr [JObj [(''filename'', JStr ''pic.PNG''), (''proxy_url'', JStr ''http://x/pic.PNG'')],
                              JObj [(''filename'', JStr ''no_url.txt'')]])]"
  have fmt: "format_message [] (\<lambda>_. []) ?msg
      = Inr (''[2024-01-02T10:00:00Z] Bob Smith'' @ [NL] @ ''hello there'' @ [NL] @ ''second line'' @ [NL]
            @ ''Attachment: pic.PNG'' @ [NL] @ ''Proxy: http://x/pic.PNG'' @ [NL] @ DIVIDER)"
    by code_simp
  have gn: "get_global_name [] (\<lambda>_. []) ?msg = Inr ''Bob Smith''"
    by code_simp
  have t: "py_str (\<lambda>_. []) (py_or (dict_get ?msg ''timestamp'') (JStr ''NO_TIMESTAMP'')) = ''2024-01-02T10:00:00Z''"
    by code_simp
  have c: "norm_text (dict_get ?msg ''content'') = Some (''hello there'' @ [NL] @ ''second line'')"
    by code_simp
  have a: "extract_attachments (\<lambda>_. []) ?msg = [(''pic.PNG'', ''http://x/pic.PNG'')]"
    by code_simp
  have safe: "round_trip_safe ''2024-01-02T10:00:00Z'' ''Bob Smith''
                (Some (''hello there'' @ [NL] @ ''second line'')) [(''pic.PNG'', ''http://x/pic.PNG'')]"
    by code_simp
  from format_parse_round_trip [OF fmt gn, unfolded t c a, OF safe, of "''a.txt''"]
  show ?thesis .
qed

text \<open>
  C1, as stated, fails: the format is line-oriented and the parser reads lines back by
  their shape. A blank line inside the content is not read back; a content line that
  starts with \<open>Attachment:\<close> is read as an attachment and not as content; white space at
  the start of a display name is taken for the separator after the timestamp.
\<close>

theorem format_parse_lossy_counterexample:
  "norm_text (dict_get [(''timestamp'', JStr ''2024-01-02T10:00:00Z''),
                        (''author'', JObj [(''global_name'', JStr ''Bob'')]),
                        (''content'', JStr (''hello'' @ [NL, NL] @ ''world''))] ''content'')
     = Some (''hello'' @ [NL, NL] @ ''world'')
   \<and> (case format_message [] (\<lambda>_. [])
            [(''timestamp'', JStr ''2024-01-02T10:00:00Z''),
             (''author'', JObj [(''global_name'', JStr ''Bob'')]),
             (''content'', JStr (''hello'' @ [NL, NL] @ ''world''))] of
        Inl e \<Rightarrow> None
      | Inr t \<Rightarrow> Some (map content (parse_file_into_messages ''a.txt'' (t @ [NL]))))
     = Some [Some (''hello'' @ [NL] @ ''world'')]
   \<and> (case format_message [] (\<lambda>_. [])
            [(''timestamp'', JStr ''2024-01-02T10:00:00Z''),
             (''author'', JObj [(''global_name'', JStr ''Bob'')]),
             (''content'', JStr ''Attachment: see below'')] of
        Inl e \<Rightarrow> None
      | Inr t \<Rightarrow> Some (map (\<lambda>m. (content m, map filename (attachments m)))
                          (parse_file_into_messages ''a.txt'' (t @ [NL]))))
     = Some [(None, [''see below''])]
   \<and> get_global_name [] (\<lambda>_. [])
            [(''timestamp'', JStr ''2024-01-02T10:00:00Z''),
             (''author'', JObj [(''global_name'', JStr ''  Bob'')]),
             (''content'', JStr ''hi'')] = Inr ''  Bob''
   \<and> (case format_message [] (\<lambda>_. [])
            [(''timestamp'', JStr ''2024-01-02T10:00:00Z''),
             (''author'', JObj [(''global_name'', JStr ''  Bob'')]),
             (''content'', JStr ''hi'')] of
        Inl e \<Rightarrow> None
      | Inr t \<Rightarrow> Some (map name (parse_file_into_messages ''a.txt'' (t @ [NL]))))
     = Some [''Bob'']"
  by code_simp


end
